theory Spec2Isabelle
  imports Main "HOL-Library.Monad_Syntax"
begin

section \<open>Numbers and time\<close>

text \<open>
  The scheduler computes with JavaScript numbers. They are modelled as mathematical
  integers: timestamps are the integral milliseconds of \<open>Date.now()\<close>, and capacities,
  intervals and rule values are integral (exact in a double below \<open>2^53\<close>). NaN and
  fractional values are outside the model. An optional field is an \<open>option\<close>.
\<close>

definition js_rem :: "int \<Rightarrow> int \<Rightarrow> int" where
  \<comment> \<open>The remainder operator \<open>%\<close>: the sign of the result follows the dividend.\<close>
  "js_rem a b = sgn a * (\<bar>a\<bar> mod \<bar>b\<bar>)"

definition truthy :: "int option \<Rightarrow> bool" where
  \<comment> \<open>\<open>if (x)\<close> on an optional number: neither undefined nor 0.\<close>
  "truthy x = (case x of None \<Rightarrow> False | Some v \<Rightarrow> v \<noteq> 0)"

section \<open>The doubly linked list (double-linked-list.ts)\<close>

text \<open>
  The list holds each value once (its index map is keyed by the value), so it is modelled
  by the sequence of its values from head to tail.
\<close>

fun putAfterFromTail :: "'a \<Rightarrow> ('a \<Rightarrow> bool) \<Rightarrow> 'a list \<Rightarrow> 'a list" where
  \<comment> \<open>The scan of \<open>putAfter\<close>, on the values listed from the tail backwards.\<close>
  "putAfterFromTail v cond [] = [v]"
| "putAfterFromTail v cond (x # xs) =
     (if cond x then v # x # xs else x # putAfterFromTail v cond xs)"

definition putAfter :: "'a \<Rightarrow> ('a \<Rightarrow> bool) \<Rightarrow> 'a list \<Rightarrow> 'a list" where
  "putAfter v cond xs = rev (putAfterFromTail v cond (rev xs))"

fun putBefore :: "'a \<Rightarrow> ('a \<Rightarrow> bool) \<Rightarrow> 'a list \<Rightarrow> 'a list" where
  "putBefore v cond [] = [v]"
| "putBefore v cond (x # xs) =
     (if cond x then v # x # xs else x # putBefore v cond xs)"

definition push :: "'a \<Rightarrow> 'a list \<Rightarrow> 'a list" where
  "push v xs = xs @ [v]"

fun pickFirstMatching :: "('a \<Rightarrow> bool) \<Rightarrow> 'a list \<Rightarrow> 'a option \<times> 'a list" where
  "pickFirstMatching cond [] = (None, [])"
| "pickFirstMatching cond (x # xs) =
     (if cond x then (Some x, xs)
      else (case pickFirstMatching cond xs of (r, ys) \<Rightarrow> (r, x # ys)))"

definition shift :: "'a list \<Rightarrow> 'a option \<times> 'a list" where
  "shift xs = (case xs of [] \<Rightarrow> (None, []) | x # ys \<Rightarrow> (Some x, ys))"

definition peekFirst :: "'a list \<Rightarrow> 'a option" where
  "peekFirst xs = (case xs of [] \<Rightarrow> None | x # _ \<Rightarrow> Some x)"

definition peekLast :: "'a list \<Rightarrow> 'a option" where
  "peekLast xs = (case rev xs of [] \<Rightarrow> None | x # _ \<Rightarrow> Some x)"

definition delete :: "'a \<Rightarrow> 'a list \<Rightarrow> 'a list" where
  "delete v xs = remove1 v xs"

section \<open>Release rules (release-rule-manager.ts)\<close>

datatype release_rule =
    Reset (ref: nat) (resetValue: "int option") (interval: int)
  | Reduce (ref: nat) (reduceValue: int) (interval: int)

text \<open>
  \<open>ref\<close> stands for the identity of the rule object: the manager keys its table by the
  object, not by its contents.
\<close>

record rule_status =
  timerId :: "int option"
  intervalId :: "int option"
  lastApplied :: int

type_synonym release_timers = "(release_rule \<times> rule_status) list"

fun isReset :: "release_rule \<Rightarrow> bool" where
  "isReset (Reset _ _ _) = True"
| "isReset (Reduce _ _ _) = False"

fun applyRule :: "release_rule \<Rightarrow> int \<Rightarrow> int \<Rightarrow> int" where
  \<comment> \<open>The \<open>applyRule\<close> callback of the limiter's constructor, on \<open>usedCapacity\<close>.\<close>
  "applyRule (Reset _ v _) ntimes used = (case v of None \<Rightarrow> 0 | Some x \<Rightarrow> x)"
| "applyRule (Reduce _ v _) ntimes used = max 0 (used - v * ntimes)"

definition canReduceCapacity :: "int \<Rightarrow> bool" where
  "canReduceCapacity used = (used > 0)"

definition catchUpTime :: "int \<Rightarrow> release_rule \<Rightarrow> rule_status \<Rightarrow> int" where
  \<comment> \<open>\<open>now - ((now - status.lastApplied) % rule.interval)\<close>\<close>
  "catchUpTime now r st = now - js_rem (now - lastApplied st) (interval r)"

definition isDue :: "int \<Rightarrow> release_rule \<Rightarrow> rule_status \<Rightarrow> bool" where
  "isDue now r st = (now - lastApplied st \<ge> interval r)"

fun resetPass :: "int \<Rightarrow> release_timers \<Rightarrow> int option \<Rightarrow> release_rule option
    \<Rightarrow> release_timers \<times> int option \<times> release_rule option" where
  \<comment> \<open>The first loop of \<open>applyMissedRules\<close>: \<open>lastResetTime\<close> and \<open>lastResetTimeRule\<close> are threaded.\<close>
  "resetPass now [] lastResetTime lastResetTimeRule = ([], lastResetTime, lastResetTimeRule)"
| "resetPass now ((r, st) # es) lastResetTime lastResetTimeRule =
     (if isReset r \<and> isDue now r st then
        (let resetTime = catchUpTime now r st;
             newer = (\<not> truthy lastResetTime \<or> resetTime > the lastResetTime)
         in case resetPass now es (if newer then Some resetTime else lastResetTime)
                   (if newer then Some r else lastResetTimeRule) of
              (es', t, tr) \<Rightarrow> ((r, st\<lparr>lastApplied := resetTime\<rparr>) # es', t, tr))
      else
        (case resetPass now es lastResetTime lastResetTimeRule of
           (es', t, tr) \<Rightarrow> ((r, st) # es', t, tr)))"

fun reducePass :: "int \<Rightarrow> int option \<Rightarrow> release_timers \<Rightarrow> int
    \<Rightarrow> release_timers \<times> int \<times> (release_rule \<times> int) list" where
  \<comment> \<open>The second loop: returns the statuses, \<open>usedCapacity\<close> and the \<open>applyRule\<close> calls made.\<close>
  "reducePass now lastResetTime [] used = ([], used, [])"
| "reducePass now lastResetTime ((r, st) # es) used =
     (if \<not> isReset r \<and> isDue now r st then
        (let lastReduceTime = catchUpTime now r st;
             timesApplied =
               (lastReduceTime - (case lastResetTime of None \<Rightarrow> lastApplied st | Some t \<Rightarrow> t))
                 div interval r;
             fire = canReduceCapacity used;
             used1 = (if fire then applyRule r timesApplied used else used)
         in case reducePass now lastResetTime es used1 of
              (es', u, calls) \<Rightarrow>
                ((r, st\<lparr>lastApplied := lastReduceTime\<rparr>) # es', u,
                 (if fire then [(r, timesApplied)] else []) @ calls))
      else
        (case reducePass now lastResetTime es used of
           (es', u, calls) \<Rightarrow> ((r, st) # es', u, calls)))"

definition applyMissedRules :: "int \<Rightarrow> release_timers \<Rightarrow> int
    \<Rightarrow> release_timers \<times> int \<times> (release_rule \<times> int) list" where
  "applyMissedRules now timers used =
     (case resetPass now timers None None of
        (timers1, lastResetTime, lastResetTimeRule) \<Rightarrow>
          (let used1 = (case lastResetTimeRule of None \<Rightarrow> used | Some r \<Rightarrow> applyRule r 1 used);
               resetCalls = (case lastResetTimeRule of None \<Rightarrow> [] | Some r \<Rightarrow> [(r, 1)])
           in case reducePass now lastResetTime timers1 used1 of
                (timers2, used2, calls) \<Rightarrow> (timers2, used2, resetCalls @ calls)))"

definition clearReleaseRuleTimer :: "rule_status \<Rightarrow> rule_status" where
  "clearReleaseRuleTimer st = st\<lparr>timerId := None, intervalId := None\<rparr>"

definition setRuleTimerWithDelay :: "release_rule \<Rightarrow> rule_status \<Rightarrow> int \<Rightarrow> rule_status" where
  \<comment> \<open>The handles record the delay of the timeout and the period of the interval.\<close>
  "setRuleTimerWithDelay r st delay =
     (if delay = interval r then st\<lparr>intervalId := Some (interval r)\<rparr>
      else st\<lparr>timerId := Some delay\<rparr>)"

fun addNewRules :: "int \<Rightarrow> bool \<Rightarrow> release_rule list \<Rightarrow> release_timers \<Rightarrow> release_timers" where
  \<comment> \<open>The first loop of \<open>setRules\<close>; \<open>lastApplied\<close> is the time of the call.\<close>
  "addNewRules now enabled [] timers = timers"
| "addNewRules now enabled (r # rs) timers =
     (if r \<in> fst ` set timers then addNewRules now enabled rs timers
      else
        (let st = \<lparr>timerId = None, intervalId = None, lastApplied = now\<rparr>;
             st1 = (if enabled then setRuleTimerWithDelay r st (interval r) else st)
         in addNewRules now enabled rs (timers @ [(r, st1)])))"

definition setRules :: "int \<Rightarrow> bool \<Rightarrow> release_rule list \<Rightarrow> release_timers \<Rightarrow> release_timers" where
  "setRules now enabled rules timers =
     filter (\<lambda>(r, st). r \<in> set rules) (addNewRules now enabled rules timers)"

section \<open>Errors and fail recovery (capacity-limiter-error.ts, fail-recovery-manager.ts)\<close>

datatype error_type =
    InvalidArgument | InvalidCall | MaxCapacityExceeded | QueueSizeExceeded
  | QueueTimeout | ExecutionTimeout | OnFailureError | Stopped

datatype error =
    CapacityLimiterError (errType: error_type) (originalError: "error option")
  | TaskError nat

text \<open>\<open>TaskError n\<close> is a value thrown by a task's callback; the limiter never inspects it.\<close>

record retry_options =
  retries :: "int option"
  minTimeout :: "int option"
  maxTimeout :: "int option"
  randomize :: "bool option"
  factor :: "int option"

datatype fail_recovery_strategy =
    StrategyNone | StrategyRetry | RetryWith retry_options | Custom

text \<open>
  A custom strategy carries the caller's \<open>onFailure\<close> hook. The hook answers through a
  promise, so its answer reaches the limiter as a later event, with one of these values.
\<close>

datatype on_failure_result = ResultRetry int | ResultThrowError error

datatype hook_outcome = HookReturns on_failure_result | HookFails error

definition defaultRetriesLimit :: int where
  "defaultRetriesLimit = 10"

definition calculateRetryTimeout :: "nat \<Rightarrow> retry_options \<Rightarrow> int \<times> int \<Rightarrow> int" where
  \<comment> \<open>\<open>rnd = (p, q)\<close> is the value \<open>p / q\<close> drawn by \<open>Math.random()\<close>, read only when
      \<open>randomize\<close> is set; \<open>Math.round\<close> of a fraction \<open>a / b\<close> is \<open>(2a + b) div 2b\<close>.\<close>
  "calculateRetryTimeout attempt opts rnd =
     (let f = (case factor opts of None \<Rightarrow> 2 | Some x \<Rightarrow> x);
          minT = (case minTimeout opts of None \<Rightarrow> 1000 | Some x \<Rightarrow> x);
          base = max minT 1 * f ^ (attempt - 1);
          timeout = (if randomize opts = Some True
                     then (2 * (fst rnd + snd rnd) * base + snd rnd) div (2 * snd rnd)
                     else base)
      in case maxTimeout opts of None \<Rightarrow> timeout | Some mx \<Rightarrow> min timeout mx)"

section \<open>The limiter's data (capacity-limiter.ts)\<close>

datatype capacity_strategy = Reserve | Claim

datatype exceeds_strategy = ThrowError | WaitForFullCapacity

datatype queue_strategy = QueueThrowError | Replace | ReplaceByPriority

record options =
  maxCapacity :: "int option"
  initiallyUsedCapacity :: "int option"
  capacityStrategy :: "capacity_strategy option"
  releaseRules :: "release_rule list option"
  taskExceedsMaxCapacityStrategy :: "exceeds_strategy option"
  maxConcurrent :: "int option"
  maxQueueSize :: "int option"
  queueSizeExceededStrategy :: "queue_strategy option"
  queueWaitingLimit :: "int option"
  queueWaitingTimeout :: "int option"
  executionTimeout :: "int option"
  failRecoveryStrategy :: "fail_recovery_strategy option"
  minDelayBetweenTasks :: "int option"

text \<open>
  \<open>minDelayBetweenTasks\<close> is not a field of \<open>CapacityLimiterOptions\<close> in capacity-limiter.ts;
  the test suite (min-delay-between-tasks.test.ts) and the README pass it, and the object
  spread of the constructor keeps whatever properties the caller's object has.
\<close>

record task_params =
  param_capacity :: "int option"
  param_priority :: "int option"
  param_queueWaitingLimit :: "int option"
  param_queueWaitingTimeout :: "int option"
  param_executionTimeout :: "int option"
  param_failRecoveryStrategy :: "fail_recovery_strategy option"

datatype callback_behaviour = ReturnsPromise | ThrowsSync error "int \<times> int"

text \<open>
  What \<open>task.callback()\<close> does when it is called: it returns a promise, whose settlement is a
  later event, or it throws at once (with the draw of \<open>Math.random()\<close> that a randomized
  retry of this failure would read).
\<close>

type_synonym task_id = nat

record task =
  priority :: int
  capacity :: int
  reservedCapacity :: "int option"
  reservedConcurrent :: "int option"
  timeAdded :: int
  timeLimit :: "int option"
  executionTimerId :: "int option"
  queueWaitingTimerId :: "int option"
  retryAttempt :: "nat option"
  callback :: callback_behaviour
  params :: task_params

text \<open>A timer handle records the time at which the timer is due.\<close>

datatype outcome = Resolved | Rejected error

record stopped_state =
  stoppedPromise :: "nat option"

record stop_params =
  stopAll :: bool
  stopWaitingTasks :: bool
  rejectExecutingTasks :: bool
  stopTaskRetries :: bool

record stop_handle =
  awaitedTasks :: "task_id list"
  awaitedStop :: "nat option"

record state =
  usedCapacity :: int
  usedConcurrent :: int
  queue :: "task_id list"
  tasksByTimeAdded :: "task_id list"
  tasksByTimeLimit :: "task_id list"
  options :: options
  releaseTimers :: release_timers
  releaseRuleTimersEnabled :: bool
  retryTimers :: "(task_id \<times> int) list"
  awaitingHook :: "(task_id \<times> error) list"
  executingTasks :: "task_id list"
  unfinished :: "task_id list"
  stopped :: "stopped_state option"
  tasks :: "task_id \<Rightarrow> task"
  nextTaskId :: task_id
  settled :: "task_id \<Rightarrow> outcome option"
  resolvedStops :: "nat list"
  nextPromise :: nat

text \<open>
  Task objects are mutated while the lists refer to them, so the lists hold task
  identifiers and \<open>tasks\<close> is the store of the objects. \<open>settled\<close> is the state of each task's
  promise, \<open>unfinished\<close> the executions whose \<open>finished\<close> flag is still false,
  \<open>awaitingHook\<close> the failures whose custom \<open>onFailure\<close> promise is pending, and
  \<open>resolvedStops\<close> the \<open>stoppedPromise\<close>s whose \<open>stoppedResolve\<close> has been called.
  \<open>options\<close> is the record passed by the caller; the three defaults of \<open>defaultOptions\<close>
  are read through the functions below.
\<close>

definition defaultPriority :: int where "defaultPriority = 5"

definition defaultCapacity :: int where "defaultCapacity = 1"

definition maxPriority :: int where "maxPriority = 9"

definition theCapacityStrategy :: "options \<Rightarrow> capacity_strategy" where
  "theCapacityStrategy opts = (case capacityStrategy opts of None \<Rightarrow> Reserve | Some c \<Rightarrow> c)"

definition theExceedsStrategy :: "options \<Rightarrow> exceeds_strategy" where
  "theExceedsStrategy opts =
     (case taskExceedsMaxCapacityStrategy opts of None \<Rightarrow> ThrowError | Some c \<Rightarrow> c)"

definition theQueueStrategy :: "options \<Rightarrow> queue_strategy" where
  "theQueueStrategy opts =
     (case queueSizeExceededStrategy opts of None \<Rightarrow> QueueThrowError | Some c \<Rightarrow> c)"

definition orElse :: "'a option \<Rightarrow> 'a option \<Rightarrow> 'a option" where
  \<comment> \<open>The operator \<open>??\<close> on two optional values.\<close>
  "orElse a b = (case a of None \<Rightarrow> b | Some x \<Rightarrow> Some x)"

definition setAdd :: "'a \<Rightarrow> 'a list \<Rightarrow> 'a list" where
  \<comment> \<open>\<open>Set.add\<close>: a set keeps the order of insertion.\<close>
  "setAdd x xs = (if x \<in> set xs then xs else xs @ [x])"

definition updTask :: "task_id \<Rightarrow> (task \<Rightarrow> task) \<Rightarrow> state \<Rightarrow> state" where
  "updTask i f s = s\<lparr>tasks := (tasks s)(i := f (tasks s i))\<rparr>"

definition settle :: "task_id \<Rightarrow> outcome \<Rightarrow> state \<Rightarrow> state" where
  \<comment> \<open>\<open>task.resolve\<close> and \<open>task.reject\<close>: a promise keeps its first settlement.\<close>
  "settle i out s =
     (if settled s i = None then s\<lparr>settled := (settled s)(i := Some out)\<rparr> else s)"

definition reject :: "task_id \<Rightarrow> error \<Rightarrow> state \<Rightarrow> state" where
  "reject i e s = settle i (Rejected e) s"

definition limiterError :: "error_type \<Rightarrow> error" where
  "limiterError ty = CapacityLimiterError ty None"

section \<open>Construction and reconfiguration\<close>

definition checkMaxCapacity :: "int option \<Rightarrow> error option" where
  "checkMaxCapacity maxCap =
     (case maxCap of None \<Rightarrow> None
      | Some m \<Rightarrow> if m < 0 then Some (limiterError InvalidArgument) else None)"

definition checkUsedCapacity :: "int option \<Rightarrow> int option \<Rightarrow> error option" where
  "checkUsedCapacity used maxCap =
     (case used of None \<Rightarrow> None
      | Some u \<Rightarrow>
          (case maxCap of None \<Rightarrow> Some (limiterError InvalidCall)
           | Some m \<Rightarrow>
               if u < 0 then Some (limiterError InvalidArgument)
               else if u > m then Some (limiterError InvalidArgument)
               else None))"

definition checkCapacityStrategy :: "capacity_strategy option \<Rightarrow> int option \<Rightarrow> error option" where
  "checkCapacityStrategy strategy maxCap =
     (if strategy \<noteq> None \<and> maxCap = None then Some (limiterError InvalidArgument) else None)"

definition checkReleaseRules :: "release_rule list option \<Rightarrow> int option \<Rightarrow> error option" where
  "checkReleaseRules rules maxCap =
     (case rules of None \<Rightarrow> None
      | Some rs \<Rightarrow>
          if length rs > 0 \<and> maxCap = None then Some (limiterError InvalidArgument) else None)"

definition emptyTask :: task where
  "emptyTask = \<lparr>priority = 0, capacity = 0, reservedCapacity = None, reservedConcurrent = None,
     timeAdded = 0, timeLimit = None, executionTimerId = None, queueWaitingTimerId = None,
     retryAttempt = None, callback = ReturnsPromise,
     params = \<lparr>param_capacity = None, param_priority = None, param_queueWaitingLimit = None,
       param_queueWaitingTimeout = None, param_executionTimeout = None,
       param_failRecoveryStrategy = None\<rparr>\<rparr>"

definition constructor :: "int \<Rightarrow> options \<Rightarrow> error + state" where
  \<comment> \<open>\<open>new CapacityLimiter(options)\<close> at time \<open>now\<close>; a thrown error is \<open>Inl\<close>.\<close>
  "constructor now opts =
     (case checkMaxCapacity (maxCapacity opts) of Some e \<Rightarrow> Inl e | None \<Rightarrow>
     (case checkUsedCapacity (initiallyUsedCapacity opts) (maxCapacity opts) of Some e \<Rightarrow> Inl e | None \<Rightarrow>
     (case checkCapacityStrategy (capacityStrategy opts) (maxCapacity opts) of Some e \<Rightarrow> Inl e | None \<Rightarrow>
     (case checkReleaseRules (releaseRules opts) (maxCapacity opts) of Some e \<Rightarrow> Inl e | None \<Rightarrow>
        Inr \<lparr>usedCapacity = (case initiallyUsedCapacity opts of None \<Rightarrow> 0 | Some u \<Rightarrow> u),
             usedConcurrent = 0, queue = [], tasksByTimeAdded = [], tasksByTimeLimit = [],
             options = opts,
             releaseTimers =
               setRules now False (case releaseRules opts of None \<Rightarrow> [] | Some rs \<Rightarrow> rs) [],
             releaseRuleTimersEnabled = False, retryTimers = [], awaitingHook = [],
             executingTasks = [], unfinished = [], stopped = None,
             tasks = (\<lambda>_. emptyTask), nextTaskId = 0, settled = (\<lambda>_. None),
             resolvedStops = [], nextPromise = 0\<rparr>))))"

definition setOptions :: "int \<Rightarrow> options \<Rightarrow> state \<Rightarrow> error + state" where
  "setOptions now opts s =
     (case checkMaxCapacity (maxCapacity opts) of Some e \<Rightarrow> Inl e | None \<Rightarrow>
     (case checkCapacityStrategy (capacityStrategy opts) (maxCapacity opts) of Some e \<Rightarrow> Inl e | None \<Rightarrow>
     (case checkReleaseRules (releaseRules opts) (maxCapacity opts) of Some e \<Rightarrow> Inl e | None \<Rightarrow>
        Inr (s\<lparr>options := opts,
               releaseTimers :=
                 setRules now (releaseRuleTimersEnabled s)
                   (case releaseRules opts of None \<Rightarrow> [] | Some rs \<Rightarrow> rs) (releaseTimers s)\<rparr>))))"

definition getOptions :: "state \<Rightarrow> options" where
  "getOptions s = options s"

section \<open>The release-rule timers\<close>

definition enableTimers :: "int \<Rightarrow> state \<Rightarrow> state" where
  "enableTimers now s =
     (if releaseRuleTimersEnabled s then s
      else
        (case applyMissedRules now (releaseTimers s) (usedCapacity s) of
           (timers, used, calls) \<Rightarrow>
             s\<lparr>releaseRuleTimersEnabled := True, usedCapacity := used,
               releaseTimers :=
                 map (\<lambda>(r, st).
                        (r, setRuleTimerWithDelay r st (interval r - (now - lastApplied st))))
                   timers\<rparr>))"

definition disableTimers :: "state \<Rightarrow> state" where
  "disableTimers s =
     (if \<not> releaseRuleTimersEnabled s then s
      else s\<lparr>releaseRuleTimersEnabled := False,
             releaseTimers := map (\<lambda>(r, st). (r, clearReleaseRuleTimer st)) (releaseTimers s)\<rparr>)"

section \<open>The scheduler loop\<close>

text \<open>
  A method that performs several updates in sequence is written as the composition of one
  function per update, in the order of the source.
\<close>

definition canFitTask :: "state \<Rightarrow> task_id \<Rightarrow> bool" where
  "canFitTask s i =
     (case maxCapacity (options s) of None \<Rightarrow> True
      | Some m \<Rightarrow> usedCapacity s + capacity (tasks s i) \<le> m)"

definition concurrencyReached :: "state \<Rightarrow> bool" where
  \<comment> \<open>\<open>this.options.maxConcurrent && this.usedConcurrent >= this.options.maxConcurrent\<close>\<close>
  "concurrencyReached s =
     (case maxConcurrent (options s) of None \<Rightarrow> False
      | Some c \<Rightarrow> c \<noteq> 0 \<and> usedConcurrent s \<ge> c)"

definition stoppedResolve :: "state \<Rightarrow> state" where
  \<comment> \<open>\<open>this.stopped.stoppedResolve?.()\<close>\<close>
  "stoppedResolve s =
     (case stopped s of None \<Rightarrow> s
      | Some st \<Rightarrow>
          (case stoppedPromise st of None \<Rightarrow> s
           | Some p \<Rightarrow> s\<lparr>resolvedStops := setAdd p (resolvedStops s)\<rparr>))"

definition scanQueue :: "state \<Rightarrow> (task_id \<times> state) option" where
  \<comment> \<open>\<open>this.queue.pickFirstMatching((task) => this.canFitTask(task))\<close>\<close>
  "scanQueue s =
     (case pickFirstMatching (canFitTask s) (queue s) of
        (None, q) \<Rightarrow> None
      | (Some i, q) \<Rightarrow> Some (i, s\<lparr>queue := q\<rparr>))"

definition selectTask :: "int \<Rightarrow> state \<Rightarrow> (task_id \<times> state) option" where
  \<comment> \<open>The choice of \<open>taskToExecute\<close>; \<open>None\<close> is either of the two \<open>return\<close>s.\<close>
  "selectTask now s =
     (case peekFirst (tasksByTimeLimit s) of
        None \<Rightarrow> scanQueue s
      | Some importantTask \<Rightarrow>
          (case timeLimit (tasks s importantTask) of
             None \<Rightarrow> scanQueue s
           | Some limit \<Rightarrow>
               if limit \<le> now then
                 (if canFitTask s importantTask then Some (importantTask, s) else None)
               else scanQueue s))"

definition theExecutionTimeout :: "state \<Rightarrow> task_id \<Rightarrow> int option" where
  \<comment> \<open>\<open>task.params.executionTimeout ?? this.options.executionTimeout\<close>\<close>
  "theExecutionTimeout s i =
     orElse (param_executionTimeout (params (tasks s i))) (executionTimeout (options s))"

definition armExecutionTimer :: "int \<Rightarrow> task_id \<Rightarrow> state \<Rightarrow> state" where
  "armExecutionTimer now i s =
     (if truthy (theExecutionTimeout s i)
      then updTask i (\<lambda>t. t\<lparr>executionTimerId := Some (now + the (theExecutionTimeout s i))\<rparr>) s
      else s)"

definition executeTask :: "int \<Rightarrow> task_id \<Rightarrow> state \<Rightarrow> state" where
  \<comment> \<open>Up to the call of \<open>task.callback()\<close>: the execution is registered and its timer armed.\<close>
  "executeTask now i s =
     armExecutionTimer now i
       (s\<lparr>executingTasks := setAdd i (executingTasks s), unfinished := setAdd i (unfinished s)\<rparr>)"

definition finishExecution :: "task_id \<Rightarrow> state \<Rightarrow> state" where
  \<comment> \<open>\<open>this.executingTasks.delete(task); finished = true\<close>\<close>
  "finishExecution i s =
     s\<lparr>executingTasks := removeAll i (executingTasks s), unfinished := removeAll i (unfinished s)\<rparr>"

definition reserveCapacity :: "task_id \<Rightarrow> state \<Rightarrow> state" where
  \<comment> \<open>\<open>if (this.options.maxCapacity !== undefined) { ... }\<close> of the dispatch.\<close>
  "reserveCapacity i s =
     (if maxCapacity (options s) \<noteq> None then
        (if theCapacityStrategy (options s) = Reserve
         then updTask i (\<lambda>t. t\<lparr>reservedCapacity := Some (capacity t)\<rparr>) s
         else s)\<lparr>usedCapacity := usedCapacity s + capacity (tasks s i)\<rparr>
      else s)"

definition clearQueueWaitingTimer :: "task_id \<Rightarrow> state \<Rightarrow> state" where
  "clearQueueWaitingTimer i s =
     (if queueWaitingTimerId (tasks s i) \<noteq> None
      then updTask i (\<lambda>t. t\<lparr>queueWaitingTimerId := None\<rparr>) s else s)"

definition reserveConcurrent :: "task_id \<Rightarrow> state \<Rightarrow> state" where
  "reserveConcurrent i s =
     (updTask i (\<lambda>t. t\<lparr>reservedConcurrent := Some 1\<rparr>) s)\<lparr>usedConcurrent := usedConcurrent s + 1\<rparr>"

definition removeFromPending :: "task_id \<Rightarrow> state \<Rightarrow> state" where
  \<comment> \<open>The three \<open>delete\<close>s of the dispatch; the last one only \<open>if (taskToExecute.timeLimit)\<close>.\<close>
  "removeFromPending i s =
     s\<lparr>queue := delete i (queue s), tasksByTimeAdded := delete i (tasksByTimeAdded s),
       tasksByTimeLimit :=
         (if truthy (timeLimit (tasks s i)) then delete i (tasksByTimeLimit s)
          else tasksByTimeLimit s)\<rparr>"

definition dispatchTask :: "int \<Rightarrow> task_id \<Rightarrow> state \<Rightarrow> state" where
  \<comment> \<open>The reservation and the removal from the pending lists, then \<open>executeTask\<close>.\<close>
  "dispatchTask now i s =
     executeTask now i
       (removeFromPending i (reserveConcurrent i (clearQueueWaitingTimer i (reserveCapacity i s))))"

definition releaseConcurrent :: "task_id \<Rightarrow> state \<Rightarrow> state" where
  "releaseConcurrent i s =
     (if truthy (reservedConcurrent (tasks s i))
      then (updTask i (\<lambda>t. t\<lparr>reservedConcurrent := Some 0\<rparr>) s)
             \<lparr>usedConcurrent := max 0 (usedConcurrent s - the (reservedConcurrent (tasks s i)))\<rparr>
      else s)"

definition releaseCapacity :: "task_id \<Rightarrow> state \<Rightarrow> state" where
  "releaseCapacity i s =
     (if truthy (reservedCapacity (tasks s i)) \<and> maxCapacity (options s) \<noteq> None
      then (updTask i (\<lambda>t. t\<lparr>reservedCapacity := Some 0\<rparr>) s)
             \<lparr>usedCapacity := max 0 (usedCapacity s - the (reservedCapacity (tasks s i)))\<rparr>
      else s)"

definition clearExecutionTimer :: "task_id \<Rightarrow> state \<Rightarrow> state" where
  "clearExecutionTimer i s =
     (if executionTimerId (tasks s i) \<noteq> None
      then updTask i (\<lambda>t. t\<lparr>executionTimerId := None\<rparr>) s else s)"

definition releaseTaskResources :: "task_id \<Rightarrow> state \<Rightarrow> state" where
  "releaseTaskResources i s =
     clearExecutionTimer i
       (releaseCapacity i (releaseConcurrent i (updTask i (\<lambda>t. t\<lparr>timeLimit := None\<rparr>) s)))"

definition setRetryTimer :: "int \<Rightarrow> task_id \<Rightarrow> int \<Rightarrow> state \<Rightarrow> state" where
  \<comment> \<open>\<open>onScheduledRetry(timeout)\<close> sets the task's \<open>timeLimit\<close>; then the timer is stored.\<close>
  "setRetryTimer now i timeout s =
     (updTask i (\<lambda>t. t\<lparr>timeLimit := Some (now + timeout)\<rparr>) s)
       \<lparr>retryTimers := retryTimers s @ [(i, now + timeout)]\<rparr>"

definition defaultRetryOptions :: retry_options where
  "defaultRetryOptions =
     \<lparr>retries = None, minTimeout = None, maxTimeout = None, randomize = None, factor = None\<rparr>"

definition retryOptionsOf :: "fail_recovery_strategy \<Rightarrow> retry_options" where
  \<comment> \<open>\<open>failRecoveryStrategy === 'retry' ? defaultRetryOptions : failRecoveryStrategy\<close>\<close>
  "retryOptionsOf strategy = (case strategy of RetryWith ro \<Rightarrow> ro | _ \<Rightarrow> defaultRetryOptions)"

definition useStrategy :: "int \<Rightarrow> task_id \<Rightarrow> fail_recovery_strategy \<Rightarrow> error \<Rightarrow> nat
    \<Rightarrow> int \<times> int \<Rightarrow> state \<Rightarrow> state" where
  \<comment> \<open>\<open>FailRecoveryManager.useStrategy\<close>: a retry strategy or, else, a custom one.\<close>
  "useStrategy now i strategy e attempt rnd s =
     (if strategy = Custom then s\<lparr>awaitingHook := awaitingHook s @ [(i, e)]\<rparr>
      else if int attempt > (case retries (retryOptionsOf strategy) of
                               None \<Rightarrow> defaultRetriesLimit | Some n \<Rightarrow> n)
      then reject i e s
      else setRetryTimer now i (calculateRetryTimeout attempt (retryOptionsOf strategy) rnd) s)"

definition theFailRecoveryStrategy :: "state \<Rightarrow> task_id \<Rightarrow> fail_recovery_strategy option" where
  \<comment> \<open>\<open>task.params.failRecoveryStrategy ?? this.options.failRecoveryStrategy\<close>\<close>
  "theFailRecoveryStrategy s i =
     orElse (param_failRecoveryStrategy (params (tasks s i))) (failRecoveryStrategy (options s))"

definition nextRetryAttempt :: "state \<Rightarrow> task_id \<Rightarrow> nat" where
  \<comment> \<open>\<open>(task.retryAttempt ?? 0) + 1\<close>\<close>
  "nextRetryAttempt s i = (case retryAttempt (tasks s i) of None \<Rightarrow> 0 | Some n \<Rightarrow> n) + 1"

definition applyFailRecovery :: "int \<Rightarrow> task_id \<Rightarrow> error \<Rightarrow> int \<times> int \<Rightarrow> state \<Rightarrow> state" where
  \<comment> \<open>The \<open>if\<close> of \<open>tryRejectTask\<close>: the strategy is used, or else the task is rejected.\<close>
  "applyFailRecovery now i e rnd s =
     (case theFailRecoveryStrategy s i of
        None \<Rightarrow> reject i e s
      | Some strategy \<Rightarrow>
          if strategy = StrategyNone then reject i e s
          else useStrategy now i strategy e (nextRetryAttempt s i) rnd
                 (updTask i (\<lambda>t. t\<lparr>retryAttempt := Some (nextRetryAttempt s i)\<rparr>) s))"

definition rejectTask :: "int \<Rightarrow> task_id \<Rightarrow> error \<Rightarrow> int \<times> int \<Rightarrow> state \<Rightarrow> state" where
  \<comment> \<open>\<open>tryRejectTask\<close> up to its last statement, the call of the scheduler loop.\<close>
  "rejectTask now i e rnd s = applyFailRecovery now i e rnd (releaseTaskResources i s)"

partial_function (option) startNextTaskIfPossible :: "int \<Rightarrow> state \<Rightarrow> state option" where
  "startNextTaskIfPossible now s =
     (if stopped s \<noteq> None \<and> queue s = [] then Some (stoppedResolve s)
      else if concurrencyReached s then Some s
      else
        (case selectTask now s of
           None \<Rightarrow> Some s
         | Some (i, s1) \<Rightarrow>
             Option.bind
               (case callback (tasks s1 i) of
                  ReturnsPromise \<Rightarrow> Some (dispatchTask now i s1)
                | ThrowsSync e rnd \<Rightarrow>
                    startNextTaskIfPossible now
                      (rejectTask now i e rnd (finishExecution i (dispatchTask now i s1))))
               (\<lambda>s3. if queue s3 = [] then Some (disableTimers s3)
                      else startNextTaskIfPossible now s3)))"

declare startNextTaskIfPossible.simps [code]

text \<open>
  The loop calls itself after every dispatch, and a callback that throws at once makes
  \<open>executeTask\<close> run \<open>tryRejectTask\<close>, which runs the loop, inside the dispatch. A run that
  does not return has the value \<open>None\<close>. (The dispatch does not change the task's
  \<open>callback\<close>, which is therefore read before it.)
\<close>

definition tryRejectTask :: "int \<Rightarrow> task_id \<Rightarrow> error \<Rightarrow> int \<times> int \<Rightarrow> state \<Rightarrow> state option" where
  "tryRejectTask now i e rnd s = startNextTaskIfPossible now (rejectTask now i e rnd s)"

definition resolveTask :: "int \<Rightarrow> task_id \<Rightarrow> state \<Rightarrow> state option" where
  "resolveTask now i s =
     startNextTaskIfPossible now (settle i Resolved (releaseTaskResources i s))"

definition removeTaskFromQueues :: "task_id \<Rightarrow> state \<Rightarrow> state" where
  "removeTaskFromQueues i s =
     s\<lparr>queue := delete i (queue s), tasksByTimeAdded := delete i (tasksByTimeAdded s),
       tasksByTimeLimit := delete i (tasksByTimeLimit s)\<rparr>"

section \<open>Admission\<close>

definition queueOverflow :: "task_id \<Rightarrow> state \<Rightarrow> bool \<times> state" where
  \<comment> \<open>The \<open>maxQueueSize\<close> block of \<open>scheduleTask\<close>; \<open>False\<close> when it ends in \<open>return\<close>.\<close>
  "queueOverflow i s =
     (if truthy (maxQueueSize (options s))
         \<and> int (length (queue s)) \<ge> the (maxQueueSize (options s)) then
        (case theQueueStrategy (options s) of
           QueueThrowError \<Rightarrow> (False, reject i (limiterError QueueSizeExceeded) s)
         | ReplaceByPriority \<Rightarrow>
             (case peekLast (queue s) of
                None \<Rightarrow> (False, reject i (limiterError QueueSizeExceeded) s)
              | Some leastPriorityTask \<Rightarrow>
                  if priority (tasks s leastPriorityTask) > priority (tasks s i)
                  then (True, reject leastPriorityTask (limiterError QueueSizeExceeded)
                                (removeTaskFromQueues leastPriorityTask s))
                  else (False, reject i (limiterError QueueSizeExceeded) s))
         | Replace \<Rightarrow>
             (case shift (tasksByTimeAdded s) of
                (None, rest) \<Rightarrow> (True, s)
              | (Some oldestTask, rest) \<Rightarrow>
                  (True, reject oldestTask (limiterError QueueSizeExceeded)
                           (removeTaskFromQueues oldestTask (s\<lparr>tasksByTimeAdded := rest\<rparr>)))))
      else (True, s))"

definition insertIntoQueue :: "task_id \<Rightarrow> state \<Rightarrow> state" where
  \<comment> \<open>\<open>this.queue.putAfter(task, ({priority}) => priority <= task.priority)\<close> and the \<open>push\<close>.\<close>
  "insertIntoQueue i s =
     s\<lparr>queue := putAfter i (\<lambda>j. priority (tasks s j) \<le> priority (tasks s i)) (queue s),
       tasksByTimeAdded := push i (tasksByTimeAdded s)\<rparr>"

definition theQueueWaitingLimit :: "state \<Rightarrow> task_id \<Rightarrow> int option" where
  "theQueueWaitingLimit s i =
     orElse (param_queueWaitingLimit (params (tasks s i))) (queueWaitingLimit (options s))"

definition assignTimeLimit :: "task_id \<Rightarrow> state \<Rightarrow> state" where
  \<comment> \<open>\<open>if (queueWaitingLimit && !task.timeLimit)\<close>\<close>
  "assignTimeLimit i s =
     (if truthy (theQueueWaitingLimit s i) \<and> \<not> truthy (timeLimit (tasks s i))
      then updTask i (\<lambda>t. t\<lparr>timeLimit := Some (timeAdded t + the (theQueueWaitingLimit s i))\<rparr>) s
      else s)"

definition insertByTimeLimit :: "task_id \<Rightarrow> state \<Rightarrow> state" where
  \<comment> \<open>\<open>if (task.timeLimit) this.tasksByTimeLimit.putBefore(...)\<close>; a comparison with an
      undefined \<open>timeLimit\<close> is false.\<close>
  "insertByTimeLimit i s =
     (if truthy (timeLimit (tasks s i))
      then s\<lparr>tasksByTimeLimit :=
               putBefore i
                 (\<lambda>j. case timeLimit (tasks s j) of None \<Rightarrow> False
                       | Some other \<Rightarrow> the (timeLimit (tasks s i)) < other)
                 (tasksByTimeLimit s)\<rparr>
      else s)"

definition theQueueWaitingTimeout :: "state \<Rightarrow> task_id \<Rightarrow> int option" where
  "theQueueWaitingTimeout s i =
     orElse (param_queueWaitingTimeout (params (tasks s i))) (queueWaitingTimeout (options s))"

definition armQueueWaitingTimer :: "int \<Rightarrow> task_id \<Rightarrow> state \<Rightarrow> state" where
  \<comment> \<open>\<open>if (queueWaitingTimeout && !task.retryAttempt)\<close>\<close>
  "armQueueWaitingTimer now i s =
     (if truthy (theQueueWaitingTimeout s i)
         \<and> (retryAttempt (tasks s i) = None \<or> retryAttempt (tasks s i) = Some 0)
      then updTask i (\<lambda>t. t\<lparr>queueWaitingTimerId := Some (now + the (theQueueWaitingTimeout s i))\<rparr>) s
      else s)"

definition insertTask :: "int \<Rightarrow> task_id \<Rightarrow> state \<Rightarrow> state" where
  \<comment> \<open>From \<open>this.queue.putAfter\<close> to the arming of the queue-waiting timer.\<close>
  "insertTask now i s =
     armQueueWaitingTimer now i (insertByTimeLimit i (assignTimeLimit i (insertIntoQueue i s)))"

definition exceedsMaxCapacity :: "state \<Rightarrow> task_id \<Rightarrow> bool" where
  "exceedsMaxCapacity s i =
     (case maxCapacity (options s) of None \<Rightarrow> False | Some m \<Rightarrow> capacity (tasks s i) > m)"

definition clampCapacity :: "task_id \<Rightarrow> state \<Rightarrow> state" where
  \<comment> \<open>\<open>task.capacity = this.options.maxCapacity\<close>, under \<open>wait-for-full-capacity\<close>.\<close>
  "clampCapacity i s =
     (if exceedsMaxCapacity s i
      then updTask i (\<lambda>t. t\<lparr>capacity := the (maxCapacity (options s))\<rparr>) s
      else s)"

definition admitTask :: "int \<Rightarrow> task_id \<Rightarrow> state \<Rightarrow> (error option \<times> state) option" where
  \<comment> \<open>\<open>scheduleTask\<close> from the check of the capacity's sign on.\<close>
  "admitTask now i s =
     (if capacity (tasks s i) < 0 then Some (Some (limiterError InvalidArgument), s)
      else if priority (tasks s i) < 0 \<or> priority (tasks s i) > maxPriority
      then Some (Some (limiterError InvalidArgument), s)
      else
        (case queueOverflow i s of
           (False, s2) \<Rightarrow> Some (None, s2)
         | (True, s2) \<Rightarrow>
             if capacity (tasks s2 i) < 0
             then Some (None, reject i (limiterError InvalidArgument) s2)
             else
               Option.bind
                 (startNextTaskIfPossible now (enableTimers now (insertTask now i s2)))
                 (\<lambda>s3. Some (None, s3))))"

definition scheduleTask :: "int \<Rightarrow> task_id \<Rightarrow> state \<Rightarrow> (error option \<times> state) option" where
  \<comment> \<open>The first component is the error thrown, if any; the state is the one left behind.\<close>
  "scheduleTask now i s =
     (if stopped s \<noteq> None then Some (None, reject i (limiterError Stopped) s)
      else if exceedsMaxCapacity s i \<and> theExceedsStrategy (options s) = ThrowError
      then Some (Some (limiterError MaxCapacityExceeded), s)
      else admitTask now i (clampCapacity i s))"

definition newTask :: "int \<Rightarrow> callback_behaviour \<Rightarrow> task_params \<Rightarrow> task" where
  "newTask now cb p =
     \<lparr>priority = (case param_priority p of None \<Rightarrow> defaultPriority | Some x \<Rightarrow> x),
      capacity = (case param_capacity p of None \<Rightarrow> defaultCapacity | Some x \<Rightarrow> x),
      reservedCapacity = None, reservedConcurrent = None, timeAdded = now,
      timeLimit = None, executionTimerId = None, queueWaitingTimerId = None,
      retryAttempt = None, callback = cb, params = p\<rparr>"

definition schedule :: "int \<Rightarrow> callback_behaviour \<Rightarrow> task_params \<Rightarrow> state
    \<Rightarrow> (error option \<times> state) option" where
  \<comment> \<open>\<open>schedule(params)\<close> at time \<open>now\<close>; the promise returned is that of task \<open>nextTaskId s\<close>.
      \<open>schedule(callback)\<close> and \<open>schedule(capacity, callback)\<close> are the calls whose params
      have at most \<open>param_capacity\<close>.\<close>
  "schedule now cb p s =
     scheduleTask now (nextTaskId s)
       (s\<lparr>tasks := (tasks s)(nextTaskId s := newTask now cb p), nextTaskId := Suc (nextTaskId s)\<rparr>)"

section \<open>Manual capacity mutation\<close>

definition getUsedCapacity :: "int \<Rightarrow> state \<Rightarrow> int \<times> state" where
  "getUsedCapacity now s =
     (if \<not> releaseRuleTimersEnabled s then
        (case applyMissedRules now (releaseTimers s) (usedCapacity s) of
           (timers, used, calls) \<Rightarrow> (used, s\<lparr>releaseTimers := timers, usedCapacity := used\<rparr>))
      else (usedCapacity s, s))"

definition setUsedCapacity :: "int \<Rightarrow> int \<Rightarrow> state \<Rightarrow> (error option \<times> state) option" where
  "setUsedCapacity now used s =
     (case checkUsedCapacity (Some used) (maxCapacity (options s)) of
        Some e \<Rightarrow> Some (Some e, s)
      | None \<Rightarrow>
          Option.bind (startNextTaskIfPossible now (s\<lparr>usedCapacity := used\<rparr>))
            (\<lambda>s1. Some (None, s1)))"

definition adjustUsedCapacity :: "int \<Rightarrow> int \<Rightarrow> state \<Rightarrow> (error option \<times> state) option" where
  "adjustUsedCapacity now diff s =
     (case maxCapacity (options s) of
        None \<Rightarrow> Some (Some (limiterError InvalidCall), s)
      | Some m \<Rightarrow>
          Option.bind
            (startNextTaskIfPossible now (s\<lparr>usedCapacity := min (max 0 (usedCapacity s + diff)) m\<rparr>))
            (\<lambda>s1. Some (None, s1)))"

section \<open>Stop\<close>

definition rejectEach :: "error \<Rightarrow> task_id list \<Rightarrow> state \<Rightarrow> state" where
  \<comment> \<open>\<open>forEach((task) => task.reject(error))\<close>\<close>
  "rejectEach e is s = fold (\<lambda>i. reject i e) is s"

definition rejectAll :: "error \<Rightarrow> state \<Rightarrow> state" where
  \<comment> \<open>\<open>FailRecoveryManager.rejectAll\<close>: every retry timer is cleared and its task rejected.\<close>
  "rejectAll e s = (rejectEach e (map fst (retryTimers s)) s)\<lparr>retryTimers := []\<rparr>"

definition getAwaitingTasks :: "state \<Rightarrow> task_id list" where
  "getAwaitingTasks s = map fst (retryTimers s)"

definition theStopParams :: "stop_params option \<Rightarrow> stop_params option" where
  \<comment> \<open>\<open>params?.stopAll ? {stopWaitingTasks: true, rejectExecutingTasks: true,
      stopTaskRetries: true} : params\<close>\<close>
  "theStopParams params0 =
     (case params0 of None \<Rightarrow> None
      | Some p \<Rightarrow>
          if stopAll p
          then Some \<lparr>stopAll = False, stopWaitingTasks = True, rejectExecutingTasks = True,
                     stopTaskRetries = True\<rparr>
          else Some p)"

definition stopWaiting :: "stop_params \<Rightarrow> state \<Rightarrow> state" where
  "stopWaiting p s =
     (if stopWaitingTasks p
      then (rejectEach (limiterError Stopped) (queue s) s)
             \<lparr>queue := [], tasksByTimeAdded := [], tasksByTimeLimit := []\<rparr>
      else s)"

definition stopExecuting :: "stop_params \<Rightarrow> state \<Rightarrow> state" where
  "stopExecuting p s =
     (if rejectExecutingTasks p
      then (rejectEach (limiterError Stopped) (executingTasks s) s)\<lparr>executingTasks := []\<rparr>
      else s)"

definition stopRetries :: "stop_params \<Rightarrow> state \<Rightarrow> state" where
  "stopRetries p s = (if stopTaskRetries p then rejectAll (limiterError Stopped) s else s)"

definition stopTasks :: "stop_params option \<Rightarrow> state \<Rightarrow> state" where
  \<comment> \<open>The first \<open>if\<close> of \<open>stop\<close>, with its condition as the source writes it.\<close>
  "stopTasks params1 s =
     (case params1 of None \<Rightarrow> s
      | Some p \<Rightarrow>
          if stopWaitingTasks p \<or> rejectExecutingTasks p \<or> stopWaitingTasks p
          then stopRetries p (stopExecuting p (stopWaiting p s))
          else s)"

definition promisesToAwait :: "state \<Rightarrow> task_id list" where
  \<comment> \<open>The tasks whose promises \<open>stop\<close> awaits: the executing ones and those awaiting a retry.\<close>
  "promisesToAwait s =
     (if length (executingTasks s) > 0 then executingTasks s else []) @ getAwaitingTasks s"

definition markStopped :: "int \<Rightarrow> state \<Rightarrow> (state \<times> stop_handle) option" where
  \<comment> \<open>\<open>stop\<close> from \<open>this.stopped = {}\<close> on. The handle stands for the promise returned:
      \<open>Promise.all\<close> of the promises of \<open>awaitedTasks\<close> and of the \<open>stoppedPromise\<close>
      \<open>awaitedStop\<close>.\<close>
  "markStopped now s =
     (if length (queue s) > 0 then
        Option.bind
          (startNextTaskIfPossible now
             (s\<lparr>stopped := Some \<lparr>stoppedPromise = Some (nextPromise s)\<rparr>,
                nextPromise := Suc (nextPromise s)\<rparr>))
          (\<lambda>s4. Some (s4, \<lparr>awaitedTasks = promisesToAwait s, awaitedStop = Some (nextPromise s)\<rparr>))
      else Some (s\<lparr>stopped := Some \<lparr>stoppedPromise = None\<rparr>\<rparr>,
                 \<lparr>awaitedTasks = promisesToAwait s, awaitedStop = None\<rparr>))"

definition stop :: "int \<Rightarrow> stop_params option \<Rightarrow> state \<Rightarrow> (state \<times> stop_handle) option" where
  "stop now params0 s = markStopped now (stopTasks (theStopParams params0) s)"

definition stopFulfilled :: "stop_handle \<Rightarrow> state \<Rightarrow> bool" where
  \<comment> \<open>The promise returned by \<open>stop\<close> is fulfilled: all the promises it awaits are.\<close>
  "stopFulfilled h s =
     (list_all (\<lambda>i. settled s i = Some Resolved) (awaitedTasks h)
      \<and> (case awaitedStop h of None \<Rightarrow> True | Some p \<Rightarrow> p \<in> set (resolvedStops s)))"

section \<open>Events: timers and callbacks\<close>

definition callbackResolves :: "int \<Rightarrow> task_id \<Rightarrow> state \<Rightarrow> state option" where
  \<comment> \<open>The first handler of \<open>task.callback().then\<close> in \<open>executeTask\<close>.\<close>
  "callbackResolves now i s =
     (if i \<in> set (unfinished s) then resolveTask now i (finishExecution i s) else Some s)"

definition callbackRejects :: "int \<Rightarrow> task_id \<Rightarrow> error \<Rightarrow> int \<times> int \<Rightarrow> state \<Rightarrow> state option" where
  \<comment> \<open>The second handler of \<open>task.callback().then\<close> in \<open>executeTask\<close>.\<close>
  "callbackRejects now i e rnd s =
     (if i \<in> set (unfinished s) then tryRejectTask now i e rnd (finishExecution i s) else Some s)"

definition executionTimerFires :: "int \<Rightarrow> task_id \<Rightarrow> int \<times> int \<Rightarrow> state \<Rightarrow> state option" where
  \<comment> \<open>The callback of the execution timer set in \<open>executeTask\<close>.\<close>
  "executionTimerFires now i rnd s =
     (if executionTimerId (tasks s i) \<noteq> None \<and> i \<in> set (unfinished s)
      then tryRejectTask now i (limiterError ExecutionTimeout) rnd (finishExecution i s)
      else Some s)"

definition queueWaitingTimerFires :: "task_id \<Rightarrow> state \<Rightarrow> state" where
  \<comment> \<open>The callback of the queue-waiting timer set in \<open>scheduleTask\<close>.\<close>
  "queueWaitingTimerFires i s =
     (if queueWaitingTimerId (tasks s i) \<noteq> None
      then reject i (limiterError QueueTimeout) (removeTaskFromQueues i s)
      else s)"

definition retryTimerFires :: "int \<Rightarrow> task_id \<Rightarrow> state \<Rightarrow> (error option \<times> state) option" where
  \<comment> \<open>The callback of a retry timer: the timer is dropped and \<open>onRetry\<close> re-admits the task.\<close>
  "retryTimerFires now i s =
     (case map_of (retryTimers s) i of
        None \<Rightarrow> Some (None, s)
      | Some due \<Rightarrow> scheduleTask now i (s\<lparr>retryTimers := remove1 (i, due) (retryTimers s)\<rparr>))"

definition hookSettles :: "int \<Rightarrow> task_id \<Rightarrow> hook_outcome \<Rightarrow> state \<Rightarrow> state" where
  \<comment> \<open>The two handlers after \<open>strategy.onFailure(params)\<close> in \<open>useStrategy\<close>.\<close>
  "hookSettles now i out s =
     (case map_of (awaitingHook s) i of
        None \<Rightarrow> s
      | Some e \<Rightarrow>
          (case out of
             HookReturns (ResultThrowError err) \<Rightarrow>
               reject i err (s\<lparr>awaitingHook := remove1 (i, e) (awaitingHook s)\<rparr>)
           | HookReturns (ResultRetry timeout) \<Rightarrow>
               setRetryTimer now i timeout (s\<lparr>awaitingHook := remove1 (i, e) (awaitingHook s)\<rparr>)
           | HookFails hookError \<Rightarrow>
               reject i (CapacityLimiterError OnFailureError (Some e))
                 (s\<lparr>awaitingHook := remove1 (i, e) (awaitingHook s)\<rparr>)))"

definition applyRuleByInterval :: "int \<Rightarrow> release_rule \<Rightarrow> state \<Rightarrow> state option" where
  "applyRuleByInterval now r s =
     startNextTaskIfPossible now
       (s\<lparr>releaseTimers :=
            map (\<lambda>(r', st). if r' = r then (r', st\<lparr>lastApplied := now\<rparr>) else (r', st))
              (releaseTimers s),
          usedCapacity := applyRule r 1 (usedCapacity s)\<rparr>)"

definition ruleIntervalFires :: "int \<Rightarrow> release_rule \<Rightarrow> state \<Rightarrow> state option" where
  \<comment> \<open>The callback of \<open>setInterval\<close> in \<open>setRuleTimerWithDelay\<close>.\<close>
  "ruleIntervalFires now r s =
     (case map_of (releaseTimers s) r of
        None \<Rightarrow> Some s
      | Some st \<Rightarrow> if intervalId st \<noteq> None then applyRuleByInterval now r s else Some s)"

definition ruleTimeoutFires :: "int \<Rightarrow> release_rule \<Rightarrow> state \<Rightarrow> state option" where
  \<comment> \<open>The callback of \<open>setTimeout\<close> in \<open>setRuleTimerWithDelay\<close>.\<close>
  "ruleTimeoutFires now r s =
     (case map_of (releaseTimers s) r of
        None \<Rightarrow> Some s
      | Some st \<Rightarrow>
          if timerId st \<noteq> None then
            applyRuleByInterval now r
              (s\<lparr>releaseTimers :=
                   map (\<lambda>(r', st'). if r' = r
                          then (r', st'\<lparr>timerId := None, intervalId := Some (interval r)\<rparr>)
                          else (r', st'))
                     (releaseTimers s)\<rparr>)
          else Some s)"

section \<open>Notions used to state the properties\<close>

text \<open>
  The definitions of this section do not model code: they name what the properties below
  speak about. For the catch-up of the release rules: the catch-up times of the reset rules
  that are due, the latest of them, the statuses with every due rule advanced to its
  catch-up time, and the firings of the reduce rules that are due, counted from the
  latest reset when there is one and from the rule's own \<open>lastApplied\<close> otherwise.
  \<open>claimedReduceFirings\<close> counts them from the later of the two, the way the
  specification words it.
\<close>

definition dueResetTimes :: "int \<Rightarrow> release_timers \<Rightarrow> int list" where
  "dueResetTimes now timers =
     map (\<lambda>(r, st). catchUpTime now r st) (filter (\<lambda>(r, st). isReset r \<and> isDue now r st) timers)"

definition reduceFirings :: "int \<Rightarrow> int option \<Rightarrow> release_timers \<Rightarrow> (release_rule \<times> int) list" where
  "reduceFirings now lastReset timers =
     map (\<lambda>(r, st). (r, (catchUpTime now r st
                          - (case lastReset of None \<Rightarrow> lastApplied st | Some t \<Rightarrow> t)) div interval r))
       (filter (\<lambda>(r, st). \<not> isReset r \<and> isDue now r st) timers)"

definition advanceDue :: "int \<Rightarrow> release_timers \<Rightarrow> release_timers" where
  "advanceDue now timers =
     map (\<lambda>(r, st). if isDue now r st then (r, st\<lparr>lastApplied := catchUpTime now r st\<rparr>)
                     else (r, st)) timers"

definition resetStep :: "int \<Rightarrow> release_rule \<times> rule_status \<Rightarrow> release_rule \<times> rule_status" where
  "resetStep now e = (case e of (r, st) \<Rightarrow>
     if isReset r \<and> isDue now r st then (r, st\<lparr>lastApplied := catchUpTime now r st\<rparr>) else (r, st))"

definition reduceStep :: "int \<Rightarrow> release_rule \<times> rule_status \<Rightarrow> release_rule \<times> rule_status" where
  "reduceStep now e = (case e of (r, st) \<Rightarrow>
     if \<not> isReset r \<and> isDue now r st then (r, st\<lparr>lastApplied := catchUpTime now r st\<rparr>) else (r, st))"

definition latestResetTime :: "int \<Rightarrow> release_timers \<Rightarrow> int option" where
  "latestResetTime now timers =
     (if dueResetTimes now timers = [] then None else Some (Max (set (dueResetTimes now timers))))"

definition claimedReduceFirings :: "int \<Rightarrow> int option \<Rightarrow> release_timers \<Rightarrow> (release_rule \<times> int) list" where
  "claimedReduceFirings now lastReset timers =
     map (\<lambda>(r, st). (r, (catchUpTime now r st
                          - (case lastReset of None \<Rightarrow> lastApplied st
                             | Some t \<Rightarrow> max (lastApplied st) t)) div interval r))
       (filter (\<lambda>(r, st). \<not> isReset r \<and> isDue now r st) timers)"

definition resetCalls :: "(release_rule \<times> int) list \<Rightarrow> (release_rule \<times> int) list" where
  "resetCalls calls = filter (\<lambda>c. isReset (fst c)) calls"

definition reduceCalls :: "(release_rule \<times> int) list \<Rightarrow> (release_rule \<times> int) list" where
  "reduceCalls calls = filter (\<lambda>c. \<not> isReset (fst c)) calls"

definition exampleTimers :: release_timers where
  \<comment> \<open>A reset rule installed at time 0 and a reduce rule installed at time 800.\<close>
  "exampleTimers =
     [(Reset 0 (Some 5) 600, \<lparr>timerId = None, intervalId = None, lastApplied = 0\<rparr>),
      (Reduce 1 1 100, \<lparr>timerId = None, intervalId = None, lastApplied = 800\<rparr>)]"

text \<open>
  The scenarios of the examples. Every one of them starts from the constructor and runs
  calls of the public methods and events; a scenario is \<open>None\<close> only if a call fails to return.
\<close>

definition noOptions :: options where
  "noOptions = \<lparr>maxCapacity = None, initiallyUsedCapacity = None, capacityStrategy = None,
     releaseRules = None, taskExceedsMaxCapacityStrategy = None, maxConcurrent = None,
     maxQueueSize = None, queueSizeExceededStrategy = None, queueWaitingLimit = None,
     queueWaitingTimeout = None, executionTimeout = None, failRecoveryStrategy = None,
     minDelayBetweenTasks = None\<rparr>"

definition noParams :: task_params where
  "noParams = \<lparr>param_capacity = None, param_priority = None, param_queueWaitingLimit = None,
     param_queueWaitingTimeout = None, param_executionTimeout = None,
     param_failRecoveryStrategy = None\<rparr>"

definition noStopParams :: stop_params where
  "noStopParams = \<lparr>stopAll = False, stopWaitingTasks = False, rejectExecutingTasks = False,
     stopTaskRetries = False\<rparr>"

definition newLimiter :: "options \<Rightarrow> state option" where
  \<comment> \<open>\<open>new CapacityLimiter(options)\<close> at time 0, when it does not throw.\<close>
  "newLimiter opts = (case constructor 0 opts of Inl e \<Rightarrow> None | Inr s \<Rightarrow> Some s)"

definition scheduled :: "int \<Rightarrow> task_params \<Rightarrow> state \<Rightarrow> state option" where
  \<comment> \<open>\<open>schedule(params)\<close> with a callback that returns a promise, when it does not throw.\<close>
  "scheduled now p s =
     (case schedule now ReturnsPromise p s of
        Some (None, s') \<Rightarrow> Some s'
      | _ \<Rightarrow> None)"

definition retryScenario :: "state option" where
  \<comment> \<open>A task scheduled with \<open>failRecoveryStrategy: 'retry'\<close> fails at time 10 and sleeps until
      its retry at time 1010.\<close>
  "retryScenario =
     do {
       s0 \<leftarrow> newLimiter (noOptions\<lparr>maxCapacity := Some 10\<rparr>);
       s1 \<leftarrow> scheduled 0 (noParams\<lparr>param_failRecoveryStrategy := Some StrategyRetry\<rparr>) s0;
       callbackRejects 10 0 (TaskError 7) (0, 1) s1
     }"

definition twoTasksScenario :: "state option" where
  \<comment> \<open>With \<open>maxCapacity: 1\<close>, task 0 is executing and task 1 waits in the queue.\<close>
  "twoTasksScenario =
     do {
       s0 \<leftarrow> newLimiter (noOptions\<lparr>maxCapacity := Some 1\<rparr>);
       s1 \<leftarrow> scheduled 0 noParams s0;
       scheduled 0 noParams s1
     }"


definition agedState :: "int \<Rightarrow> state" where
  \<comment> \<open>A limiter with \<open>maxCapacity: 10\<close> and \<open>used\<close> units in use. Task 0 (priority 9, capacity
      5, admitted at time 0 with \<open>queueWaitingLimit: 50\<close>) and task 1 (priority 0, capacity 1,
      admitted at time 10) are pending.\<close>
  "agedState used =
     \<lparr>usedCapacity = used, usedConcurrent = 0, queue = [1, 0], tasksByTimeAdded = [0, 1],
      tasksByTimeLimit = [0],
      options = \<lparr>maxCapacity = Some 10, initiallyUsedCapacity = None, capacityStrategy = None,
        releaseRules = None, taskExceedsMaxCapacityStrategy = None, maxConcurrent = None,
        maxQueueSize = None, queueSizeExceededStrategy = None, queueWaitingLimit = None,
        queueWaitingTimeout = None, executionTimeout = None, failRecoveryStrategy = None,
        minDelayBetweenTasks = None\<rparr>,
      releaseTimers = [], releaseRuleTimersEnabled = True, retryTimers = [], awaitingHook = [],
      executingTasks = [], unfinished = [], stopped = None,
      tasks = (\<lambda>_. emptyTask)
        (0 := emptyTask\<lparr>priority := 9, capacity := 5, timeLimit := Some 50,
                params := (params emptyTask)\<lparr>param_queueWaitingLimit := Some 50\<rparr>\<rparr>,
         1 := emptyTask\<lparr>priority := 0, capacity := 1, timeAdded := 10\<rparr>),
      nextTaskId = 2, settled = (\<lambda>_. None), resolvedStops = [], nextPromise = 0\<rparr>"









datatype event =
    Schedule int callback_behaviour task_params
  | CallbackResolves int task_id
  | CallbackRejects int task_id error "int \<times> int"
  | ExecutionTimerFires int task_id "int \<times> int"
  | QueueWaitingTimerFires task_id
  | RetryTimerFires int task_id
  | HookSettles int task_id hook_outcome
  | RuleIntervalFires int release_rule
  | RuleTimeoutFires int release_rule
  | GetUsedCapacity int
  | SetUsedCapacity int int
  | AdjustUsedCapacity int int
  | SetOptions int options
  | Stop int "stop_params option"

fun step :: "event \<Rightarrow> state \<Rightarrow> state option" where
  \<comment> \<open>One call of a public method or one callback of a timer or promise, at the time given
      first; what a method throws or returns is dropped, the state it leaves is kept.\<close>
  "step (Schedule now cb p) s = map_option snd (schedule now cb p s)"
| "step (CallbackResolves now i) s = callbackResolves now i s"
| "step (CallbackRejects now i e rnd) s = callbackRejects now i e rnd s"
| "step (ExecutionTimerFires now i rnd) s = executionTimerFires now i rnd s"
| "step (QueueWaitingTimerFires i) s = Some (queueWaitingTimerFires i s)"
| "step (RetryTimerFires now i) s = map_option snd (retryTimerFires now i s)"
| "step (HookSettles now i out) s = Some (hookSettles now i out s)"
| "step (RuleIntervalFires now r) s = ruleIntervalFires now r s"
| "step (RuleTimeoutFires now r) s = ruleTimeoutFires now r s"
| "step (GetUsedCapacity now) s = Some (snd (getUsedCapacity now s))"
| "step (SetUsedCapacity now used) s = map_option snd (setUsedCapacity now used s)"
| "step (AdjustUsedCapacity now diff) s = map_option snd (adjustUsedCapacity now diff s)"
| "step (SetOptions now opts) s =
     (case setOptions now opts s of Inl e \<Rightarrow> Some s | Inr s' \<Rightarrow> Some s')"
| "step (Stop now p) s = map_option fst (stop now p s)"

fun run :: "event list \<Rightarrow> state \<Rightarrow> state option" where
  "run [] s = Some s"
| "run (e # es) s = Option.bind (step e s) (run es)"

definition bounds :: "state \<Rightarrow> bool" where
  \<comment> \<open>\<open>usedCapacity \<le> maxCapacity\<close> and \<open>usedConcurrent \<le> maxConcurrent\<close>, each when defined.\<close>
  "bounds s =
     ((case maxCapacity (options s) of None \<Rightarrow> True | Some m \<Rightarrow> usedCapacity s \<le> m)
      \<and> (case maxConcurrent (options s) of None \<Rightarrow> True | Some c \<Rightarrow> usedConcurrent s \<le> c))"

definition ruleSafe :: "int \<Rightarrow> release_rule \<Rightarrow> bool" where
  \<comment> \<open>A positive interval; a reset value between 0 and \<open>maxCapacity\<close>; a reduce value not below 0.\<close>
  "ruleSafe m r =
     (0 < interval r
      \<and> (case r of
            Reset _ v _ \<Rightarrow> (case v of None \<Rightarrow> True | Some x \<Rightarrow> 0 \<le> x \<and> x \<le> m)
          | Reduce _ v _ \<Rightarrow> 0 \<le> v))"

definition resetsToZero :: "release_rule \<Rightarrow> bool" where
  "resetsToZero r = (case r of Reset _ v _ \<Rightarrow> v = None \<or> v = Some 0 | Reduce _ _ _ \<Rightarrow> True)"

definition rulesSafe :: "int \<Rightarrow> release_rule list \<Rightarrow> bool" where
  \<comment> \<open>Every rule is safe, and a reduce rule stands only beside reset rules that reset to 0.\<close>
  "rulesSafe m rules =
     (list_all (ruleSafe m) rules \<and> (list_all isReset rules \<or> list_all resetsToZero rules))"

definition optionsSafe :: "options \<Rightarrow> bool" where
  "optionsSafe opts =
     ((case maxConcurrent opts of None \<Rightarrow> True | Some c \<Rightarrow> 1 \<le> c)
      \<and> (case maxCapacity opts of None \<Rightarrow> True
          | Some m \<Rightarrow> rulesSafe m (case releaseRules opts of None \<Rightarrow> [] | Some rs \<Rightarrow> rs)))"

definition allowed :: "event \<Rightarrow> state \<Rightarrow> bool" where
  \<comment> \<open>A reconfiguration is allowed when its options are safe and its limits are not below
      what is in use; every other event is allowed.\<close>
  "allowed e s =
     (case e of
        SetOptions now opts \<Rightarrow>
          optionsSafe opts
          \<and> (case maxCapacity opts of None \<Rightarrow> True | Some m \<Rightarrow> usedCapacity s \<le> m)
          \<and> (case maxConcurrent opts of None \<Rightarrow> True | Some c \<Rightarrow> usedConcurrent s \<le> c)
      | _ \<Rightarrow> True)"

fun allowedRun :: "event list \<Rightarrow> state \<Rightarrow> bool" where
  "allowedRun [] s = True"
| "allowedRun (e # es) s =
     (allowed e s \<and> (case step e s of None \<Rightarrow> True | Some s' \<Rightarrow> allowedRun es s'))"

definition limiterAfter :: "int \<Rightarrow> options \<Rightarrow> event list \<Rightarrow> state option" where
  \<comment> \<open>The limiter constructed at time \<open>t0\<close>, after the events.\<close>
  "limiterAfter t0 opts events =
     (case constructor t0 opts of Inl e \<Rightarrow> None | Inr s0 \<Rightarrow> run events s0)"

definition allowedFrom :: "int \<Rightarrow> options \<Rightarrow> event list \<Rightarrow> bool" where
  "allowedFrom t0 opts events =
     (case constructor t0 opts of Inl e \<Rightarrow> True | Inr s0 \<Rightarrow> allowedRun events s0)"

definition usage :: "state \<Rightarrow> (int \<times> int option) \<times> (int \<times> int option)" where
  "usage s = ((usedCapacity s, maxCapacity (options s)),
              (usedConcurrent s, maxConcurrent (options s)))"

definition exampleOptions :: options where
  "exampleOptions =
     noOptions\<lparr>maxCapacity := Some 10, maxConcurrent := Some 2,
       releaseRules := Some [Reduce 0 1 100],
       failRecoveryStrategy := Some StrategyRetry\<rparr>"

definition exampleEvents :: "event list" where
  "exampleEvents =
     [Schedule 0 ReturnsPromise (noParams\<lparr>param_capacity := Some 8\<rparr>),
      Schedule 1 ReturnsPromise (noParams\<lparr>param_capacity := Some 5\<rparr>),
      RuleTimeoutFires 100 (Reduce 0 1 100),
      Schedule 120 (ThrowsSync (TaskError 1) (0, 1)) (noParams\<lparr>param_capacity := Some 2\<rparr>),
      CallbackRejects 150 0 (TaskError 2) (0, 1),
      SetOptions 160 (exampleOptions\<lparr>maxCapacity := Some 6\<rparr>),
      AdjustUsedCapacity 170 3,
      RetryTimerFires 1120 2,
      CallbackResolves 1150 1,
      GetUsedCapacity 1200,
      Stop 1300 None]"

definition exampleEnd :: state where
  "exampleEnd = the (limiterAfter 0 exampleOptions exampleEvents)"

definition known :: "state \<Rightarrow> task_id set" where
  \<comment> \<open>The tasks that the limiter still refers to.\<close>
  "known s = set (queue s) \<union> set (tasksByTimeLimit s) \<union> set (unfinished s)
             \<union> fst ` set (retryTimers s) \<union> fst ` set (awaitingHook s)"

definition capOk :: "state \<Rightarrow> bool" where
  "capOk s =
     (case maxCapacity (options s) of None \<Rightarrow> True
      | Some m \<Rightarrow> usedCapacity s \<le> m \<and> 0 \<le> m \<and> rulesSafe m (map fst (releaseTimers s)))"

definition concOk :: "state \<Rightarrow> bool" where
  "concOk s =
     (case maxConcurrent (options s) of None \<Rightarrow> True
      | Some c \<Rightarrow> usedConcurrent s \<le> c \<and> 1 \<le> c)"

definition resOk :: "state \<Rightarrow> bool" where
  "resOk s =
     (\<forall>j r. (reservedCapacity (tasks s j) = Some r \<longrightarrow> 0 \<le> r)
          \<and> (reservedConcurrent (tasks s j) = Some r \<longrightarrow> 0 \<le> r))"

definition pendOk :: "state \<Rightarrow> bool" where
  "pendOk s = (\<forall>j \<in> known s. 0 \<le> capacity (tasks s j))"

definition idsOk :: "state \<Rightarrow> bool" where
  "idsOk s = (\<forall>j \<in> known s. j < nextTaskId s)"

definition good :: "state \<Rightarrow> bool" where
  \<comment> \<open>The invariant: the two bounds, with what keeps them: safe limits and rules,
      reservations not below 0, and tasks in use that have a capacity not below 0 and an
      identifier below the next one to be given out.\<close>
  "good s = (capOk s \<and> concOk s \<and> resOk s \<and> pendOk s \<and> idsOk s)"

section \<open>Catching up on missed release rules\<close>

lemma js_rem_pos: "0 < a \<Longrightarrow> 0 < b \<Longrightarrow> js_rem a b = a mod b"
  by (simp add: js_rem_def)

lemma catchUp_gt:
  assumes "0 < interval r" "isDue now r st"
  shows "lastApplied st < catchUpTime now r st"
proof -
  have d: "interval r \<le> now - lastApplied st" using assms by (simp add: isDue_def)
  have m: "(now - lastApplied st) mod interval r < interval r" using assms(1) by simp
  have "catchUpTime now r st = now - (now - lastApplied st) mod interval r"
    using assms(1) d by (simp add: catchUpTime_def js_rem_pos)
  then show ?thesis using d m by linarith
qed

lemma resetPass_fst:
  "resetPass now es lt lr = (es', t', r') \<Longrightarrow> es' = map (resetStep now) es"
proof (induction es arbitrary: lt lr es' t' r')
  case Nil
  then show ?case by simp
next
  case (Cons e es)
  obtain r st where e: "e = (r, st)" by (cases e)
  show ?case
  proof (cases "isReset r \<and> isDue now r st")
    case True
    then show ?thesis using Cons.prems Cons.IH e
      by (simp add: Let_def resetStep_def split: prod.splits)
  next
    case False
    then have "resetPass now (e # es) lt lr =
      (case resetPass now es lt lr of (es', t, tr) \<Rightarrow> ((r, st) # es', t, tr))"
      using e by auto
    then show ?thesis using False Cons.prems Cons.IH e
      by (auto simp: resetStep_def split: prod.splits)
  qed
qed

lemma resetPass_latest:
  assumes "list_all (\<lambda>(r, st). 0 < interval r \<and> 0 \<le> lastApplied st) es"
    and "case lt of None \<Rightarrow> True | Some t \<Rightarrow> 0 < t"
    and "resetPass now es lt lr = (es', t', r')"
  shows "(\<forall>c \<in> set (dueResetTimes now es). \<exists>u. t' = Some u \<and> c \<le> u)
       \<and> (\<forall>t. lt = Some t \<longrightarrow> (\<exists>u. t' = Some u \<and> t \<le> u))
       \<and> ((t' = lt \<and> r' = lr)
          \<or> (\<exists>r st. (r, st) \<in> set es \<and> isReset r \<and> isDue now r st
                \<and> t' = Some (catchUpTime now r st) \<and> r' = Some r))"
  using assms
proof (induction es arbitrary: lt lr es' t' r')
  case Nil
  then show ?case by (simp add: dueResetTimes_def)
next
  case (Cons e es)
  obtain r st where e: "e = (r, st)" by (cases e)
  have wf: "list_all (\<lambda>(r, st). 0 < interval r \<and> 0 \<le> lastApplied st) es"
    and wfe: "0 < interval r" "0 \<le> lastApplied st"
    using Cons.prems(1) e by auto
  show ?case
  proof (cases "isReset r \<and> isDue now r st")
    case False
    then have eq: "resetPass now (e # es) lt lr =
      (case resetPass now es lt lr of (es', t, tr) \<Rightarrow> ((r, st) # es', t, tr))"
      using e by auto
    obtain es1 where r1: "resetPass now es lt lr = (es1, t', r')"
      using eq Cons.prems(3) by (auto split: prod.splits)
    have d: "dueResetTimes now (e # es) = dueResetTimes now es"
      using False e by (auto simp: dueResetTimes_def)
    from Cons.IH[OF wf Cons.prems(2) r1] show ?thesis
      unfolding d by auto
  next
    case True
    define c where "c = catchUpTime now r st"
    have cpos: "0 < c" using catchUp_gt[of r now st] wfe True by (simp add: c_def)
    define newer where "newer = (\<not> truthy lt \<or> c > the lt)"
    define lt2 where "lt2 = (if newer then Some c else lt)"
    define lr2 where "lr2 = (if newer then Some r else lr)"
    have eq: "resetPass now (e # es) lt lr =
      (case resetPass now es lt2 lr2 of (es', t, tr) \<Rightarrow> ((r, st\<lparr>lastApplied := c\<rparr>) # es', t, tr))"
      using True e by (simp add: Let_def c_def newer_def lt2_def lr2_def)
    obtain es1 where r1: "resetPass now es lt2 lr2 = (es1, t', r')"
      using eq Cons.prems(3) by (auto split: prod.splits)
    have acc: "case lt2 of None \<Rightarrow> True | Some t \<Rightarrow> 0 < t"
      using Cons.prems(2) cpos by (auto simp: lt2_def split: option.splits)
    note IH = Cons.IH[OF wf acc r1]
    have d: "set (dueResetTimes now (e # es)) = insert c (set (dueResetTimes now es))"
      using True e by (auto simp: dueResetTimes_def c_def)
    have cle: "\<exists>u. lt2 = Some u \<and> c \<le> u"
    proof (cases newer)
      case True then show ?thesis by (simp add: lt2_def)
    next
      case False
      then obtain t where "lt = Some t" "t \<noteq> 0" "\<not> c > t"
        by (auto simp: newer_def truthy_def split: option.splits)
      then show ?thesis using False by (simp add: lt2_def)
    qed
    have ltle: "\<forall>t. lt = Some t \<longrightarrow> (\<exists>u. lt2 = Some u \<and> t \<le> u)"
      using Cons.prems(2) by (auto simp: lt2_def newer_def truthy_def)
    have A: "\<forall>c' \<in> set (dueResetTimes now (e # es)). \<exists>u. t' = Some u \<and> c' \<le> u"
      unfolding d using IH cle by fastforce
    have B: "\<forall>t. lt = Some t \<longrightarrow> (\<exists>u. t' = Some u \<and> t \<le> u)"
      using IH ltle by fastforce
    have C: "(t' = lt \<and> r' = lr)
          \<or> (\<exists>r st. (r, st) \<in> set (e # es) \<and> isReset r \<and> isDue now r st
                \<and> t' = Some (catchUpTime now r st) \<and> r' = Some r)"
    proof -
      from IH have "(t' = lt2 \<and> r' = lr2)
          \<or> (\<exists>r st. (r, st) \<in> set es \<and> isReset r \<and> isDue now r st
                \<and> t' = Some (catchUpTime now r st) \<and> r' = Some r)" by blast
      then show ?thesis
      proof
        assume h: "t' = lt2 \<and> r' = lr2"
        show ?thesis
        proof (cases newer)
          case True
          then have "t' = Some (catchUpTime now r st) \<and> r' = Some r"
            using h by (simp add: lt2_def lr2_def c_def)
          then show ?thesis using \<open>isReset r \<and> isDue now r st\<close> e by auto
        next
          case False
          then show ?thesis using h by (simp add: lt2_def lr2_def)
        qed
      next
        assume "\<exists>r st. (r, st) \<in> set es \<and> isReset r \<and> isDue now r st
                \<and> t' = Some (catchUpTime now r st) \<and> r' = Some r"
        then show ?thesis by auto
      qed
    qed
    show ?thesis using A B C by blast
  qed
qed

lemma reducePass_fst:
  "reducePass now lt es used = (es', u, calls) \<Longrightarrow> es' = map (reduceStep now) es"
proof (induction es arbitrary: used es' u calls)
  case Nil
  then show ?case by simp
next
  case (Cons e es)
  obtain r st where e: "e = (r, st)" by (cases e)
  show ?case
  proof (cases "\<not> isReset r \<and> isDue now r st")
    case True
    then show ?thesis using Cons.prems Cons.IH e
      by (simp add: Let_def reduceStep_def split: prod.splits)
  next
    case False
    then have "reducePass now lt (e # es) used =
      (case reducePass now lt es used of (es', u, calls) \<Rightarrow> ((r, st) # es', u, calls))"
      using e by auto
    then show ?thesis using False Cons.prems Cons.IH e
      by (auto simp: reduceStep_def split: prod.splits)
  qed
qed

lemma reducePass_idle:
  "used \<le> 0 \<Longrightarrow> reducePass now lt es used = (es', u, calls) \<Longrightarrow> u = used \<and> calls = []"
proof (induction es arbitrary: es' u calls)
  case Nil
  then show ?case by simp
next
  case (Cons e es)
  obtain r st where e: "e = (r, st)" by (cases e)
  have "reducePass now lt (e # es) used =
      (case reducePass now lt es used of (es', u, calls) \<Rightarrow> (reduceStep now e # es', u, calls))"
    using e Cons.prems(1)
    by (simp add: Let_def canReduceCapacity_def reduceStep_def split: prod.splits)
  then show ?case using Cons by (auto split: prod.splits)
qed

lemma reducePass_calls:
  "reducePass now lt es used = (es', u, calls) \<Longrightarrow>
     (\<exists>k. calls = take k (reduceFirings now lt es)) \<and> (0 < u \<longrightarrow> calls = reduceFirings now lt es)"
proof (induction es arbitrary: used es' u calls)
  case Nil
  then show ?case by (simp add: reduceFirings_def)
next
  case (Cons e es)
  obtain r st where e: "e = (r, st)" by (cases e)
  show ?case
  proof (cases "\<not> isReset r \<and> isDue now r st")
    case False
    then have eq: "reducePass now lt (e # es) used =
      (case reducePass now lt es used of (es', u, calls) \<Rightarrow> ((r, st) # es', u, calls))"
      using e by auto
    obtain es1 where r1: "reducePass now lt es used = (es1, u, calls)"
      using eq Cons.prems by (auto split: prod.splits)
    have d: "reduceFirings now lt (e # es) = reduceFirings now lt es"
      using False e by (auto simp: reduceFirings_def)
    show ?thesis unfolding d using Cons.IH[OF r1] .
  next
    case True
    define n where "n = (catchUpTime now r st
                          - (case lt of None \<Rightarrow> lastApplied st | Some t \<Rightarrow> t)) div interval r"
    have d: "reduceFirings now lt (e # es) = (r, n) # reduceFirings now lt es"
      using True e by (auto simp: reduceFirings_def n_def)
    show ?thesis
    proof (cases "0 < used")
      case False
      then have "u = used \<and> calls = []" using reducePass_idle[of used now lt "e # es"] Cons.prems
        by simp
      then show ?thesis using False by (auto intro: exI[of _ 0])
    next
      case pos: True
      have eq: "reducePass now lt (e # es) used =
        (case reducePass now lt es (applyRule r n used) of
           (es', u, calls) \<Rightarrow> ((r, st\<lparr>lastApplied := catchUpTime now r st\<rparr>) # es', u, (r, n) # calls))"
        using True e pos by (simp add: Let_def canReduceCapacity_def n_def)
      obtain es1 calls1 where r1: "reducePass now lt es (applyRule r n used) = (es1, u, calls1)"
        and c: "calls = (r, n) # calls1"
        using eq Cons.prems by (auto split: prod.splits)
      from Cons.IH[OF r1] obtain k where k: "calls1 = take k (reduceFirings now lt es)"
        and full: "0 < u \<longrightarrow> calls1 = reduceFirings now lt es" by blast
      have "calls = take (Suc k) (reduceFirings now lt (e # es))" using k c d by simp
      then have "\<exists>k. calls = take k (reduceFirings now lt (e # es))" by blast
      moreover have "0 < u \<longrightarrow> calls = reduceFirings now lt (e # es)" using full c d by simp
      ultimately show ?thesis by blast
    qed
  qed
qed

lemma reduceFirings_resetStep:
  "reduceFirings now lt (map (resetStep now) es) = reduceFirings now lt es"
  by (induction es) (auto simp: reduceFirings_def resetStep_def split: if_splits)

lemma reduceFirings_not_reset: "(r, n) \<in> set (reduceFirings now lt es) \<Longrightarrow> \<not> isReset r"
  by (auto simp: reduceFirings_def)

lemma advanceDue_steps: "map (reduceStep now) (map (resetStep now) es) = advanceDue now es"
  by (induction es) (auto simp: reduceStep_def resetStep_def advanceDue_def split: if_splits)

lemma resetPass_start:
  assumes wf: "list_all (\<lambda>(r, st). 0 < interval r \<and> 0 \<le> lastApplied st) timers"
    and run: "resetPass now timers None None = (es', t', r')"
  shows "t' = latestResetTime now timers"
    and "t' = None \<Longrightarrow> r' = None"
    and "t' \<noteq> None \<Longrightarrow> \<exists>r st. (r, st) \<in> set timers \<and> isReset r \<and> isDue now r st
            \<and> t' = Some (catchUpTime now r st) \<and> r' = Some r"
proof -
  have L: "(\<forall>c \<in> set (dueResetTimes now timers). \<exists>u. t' = Some u \<and> c \<le> u)
       \<and> ((t' = None \<and> r' = None)
          \<or> (\<exists>r st. (r, st) \<in> set timers \<and> isReset r \<and> isDue now r st
                \<and> t' = Some (catchUpTime now r st) \<and> r' = Some r))"
    using resetPass_latest[OF wf _ run] by simp
  show "t' = None \<Longrightarrow> r' = None" using L by auto
  show "t' \<noteq> None \<Longrightarrow> \<exists>r st. (r, st) \<in> set timers \<and> isReset r \<and> isDue now r st
            \<and> t' = Some (catchUpTime now r st) \<and> r' = Some r" using L by auto
  show "t' = latestResetTime now timers"
  proof (cases "dueResetTimes now timers = []")
    case True
    then have "\<not> (\<exists>r st. (r, st) \<in> set timers \<and> isReset r \<and> isDue now r st)"
      by (auto simp: dueResetTimes_def filter_empty_conv)
    then have "t' = None" using L by blast
    then show ?thesis using True by (simp add: latestResetTime_def)
  next
    case False
    then obtain c where "c \<in> set (dueResetTimes now timers)" by (cases "dueResetTimes now timers") auto
    then obtain u where u: "t' = Some u" using L by blast
    then obtain r st where m: "(r, st) \<in> set timers" "isReset r" "isDue now r st"
        "u = catchUpTime now r st" using L by auto
    have mem: "u \<in> set (dueResetTimes now timers)"
      using m by (force simp: dueResetTimes_def)
    have ub: "\<And>c. c \<in> set (dueResetTimes now timers) \<Longrightarrow> c \<le> u" using L u by auto
    have "Max (set (dueResetTimes now timers)) = u"
      by (rule Max_eqI) (use mem ub in auto)
    then show ?thesis using False u by (simp add: latestResetTime_def)
  qed
qed

text \<open>
  C4, as the code has it. For release rules with positive intervals and non-negative
  \<open>lastApplied\<close> times, the catch-up routine advances the \<open>lastApplied\<close> of every due rule to
  that rule's own catch-up time \<open>now - ((now - lastApplied) mod interval)\<close> and leaves the
  other rules alone; among the due reset rules it applies one whose catch-up time is the
  latest, once, and no other reset rule; and it applies the due reduce rules in table order,
  each \<open>floor((catchUpTime - base) / interval)\<close> times, where \<open>base\<close> is the latest reset
  catch-up time when some reset rule is due and the rule's own \<open>lastApplied\<close> otherwise,
  for as long as \<open>usedCapacity\<close> is positive (a prefix of the due reduce rules, and all of
  them when \<open>usedCapacity\<close> is still positive at the end).
\<close>

theorem applyMissedRules_catch_up:
  assumes wf: "list_all (\<lambda>(r, st). 0 < interval r \<and> 0 \<le> lastApplied st) timers"
    and run: "applyMissedRules now timers used = (timers', used', calls)"
  shows "timers' = advanceDue now timers
       \<and> (latestResetTime now timers = None \<longrightarrow> resetCalls calls = [])
       \<and> (latestResetTime now timers \<noteq> None \<longrightarrow>
            (\<exists>r st. (r, st) \<in> set timers \<and> isReset r \<and> isDue now r st
               \<and> latestResetTime now timers = Some (catchUpTime now r st)
               \<and> resetCalls calls = [(r, 1)]))
       \<and> (\<exists>k. reduceCalls calls = take k (reduceFirings now (latestResetTime now timers) timers))
       \<and> (0 < used' \<longrightarrow> reduceCalls calls = reduceFirings now (latestResetTime now timers) timers)"
proof -
  obtain timers1 t1 r1 where p1: "resetPass now timers None None = (timers1, t1, r1)"
    by (cases "resetPass now timers None None") auto
  define used1 where "used1 = (case r1 of None \<Rightarrow> used | Some r \<Rightarrow> applyRule r 1 used)"
  define rc where "rc = (case r1 of None \<Rightarrow> [] | Some r \<Rightarrow> [(r, 1::int)])"
  obtain timers2 u2 calls2 where p2: "reducePass now t1 timers1 used1 = (timers2, u2, calls2)"
    by (cases "reducePass now t1 timers1 used1") auto
  have res: "timers' = timers2" "used' = u2" "calls = rc @ calls2"
    using run p1 p2 by (simp_all add: applyMissedRules_def Let_def used1_def rc_def)
  have t1: "t1 = latestResetTime now timers" by (rule resetPass_start(1)[OF wf p1])
  have tm1: "timers1 = map (resetStep now) timers" by (rule resetPass_fst[OF p1])
  have tm2: "timers2 = map (reduceStep now) timers1" by (rule reducePass_fst[OF p2])
  have A: "timers' = advanceDue now timers" using res tm1 tm2 advanceDue_steps by simp
  have fir: "reduceFirings now t1 timers1 = reduceFirings now t1 timers"
    using tm1 reduceFirings_resetStep by simp
  have rp: "(\<exists>k. calls2 = take k (reduceFirings now t1 timers))
      \<and> (0 < u2 \<longrightarrow> calls2 = reduceFirings now t1 timers)"
    using reducePass_calls[OF p2] unfolding fir .
  then obtain k where k: "calls2 = take k (reduceFirings now t1 timers)" by blast
  have full: "0 < u2 \<longrightarrow> calls2 = reduceFirings now t1 timers" using rp by blast
  have nr: "\<forall>c \<in> set calls2. \<not> isReset (fst c)"
    using k reduceFirings_not_reset[of _ _ now t1 timers] by (auto dest: in_set_takeD)
  have rcr: "\<forall>c \<in> set rc. isReset (fst c)"
  proof (cases r1)
    case None
    then show ?thesis by (simp add: rc_def)
  next
    case (Some a)
    then have "t1 \<noteq> None" using resetPass_start(2)[OF wf p1] by auto
    then have "isReset a" using resetPass_start(3)[OF wf p1] Some by auto
    then show ?thesis using Some by (simp add: rc_def)
  qed
  have f1: "resetCalls calls = rc" using res nr rcr by (simp add: resetCalls_def filter_empty_conv filter_id_conv)
  have f2: "reduceCalls calls = calls2" using res nr rcr by (simp add: reduceCalls_def filter_empty_conv filter_id_conv)
  have B: "latestResetTime now timers = None \<longrightarrow> resetCalls calls = []"
    using f1 t1 resetPass_start(2)[OF wf p1] by (auto simp: rc_def)
  have C: "latestResetTime now timers \<noteq> None \<longrightarrow>
            (\<exists>r st. (r, st) \<in> set timers \<and> isReset r \<and> isDue now r st
               \<and> latestResetTime now timers = Some (catchUpTime now r st)
               \<and> resetCalls calls = [(r, 1)])"
  proof
    assume "latestResetTime now timers \<noteq> None"
    then have "t1 \<noteq> None" using t1 by simp
    from resetPass_start(3)[OF wf p1 this] obtain r st where
      m: "(r, st) \<in> set timers" "isReset r" "isDue now r st"
         "t1 = Some (catchUpTime now r st)" "r1 = Some r" by blast
    have c1: "resetCalls calls = [(r, 1)]" using f1 m(5) by (simp add: rc_def)
    have c2: "latestResetTime now timers = Some (catchUpTime now r st)" using m(4) t1 by simp
    show "\<exists>r st. (r, st) \<in> set timers \<and> isReset r \<and> isDue now r st
               \<and> latestResetTime now timers = Some (catchUpTime now r st)
               \<and> resetCalls calls = [(r, 1)]"
      by (intro exI[of _ r] exI[of _ st]) (simp add: c1 c2 m(1-3))
  qed
  have D: "\<exists>k. reduceCalls calls = take k (reduceFirings now (latestResetTime now timers) timers)"
    using f2 k t1 by blast
  have E: "0 < used' \<longrightarrow> reduceCalls calls = reduceFirings now (latestResetTime now timers) timers"
    using f2 full t1 res(2) by metis
  show ?thesis using A B C D E by blast
qed

theorem applyMissedRules_catch_up_witness:
  "list_all (\<lambda>(r, st). 0 < interval r \<and> 0 \<le> lastApplied st) exampleTimers
   \<and> applyMissedRules 1000 exampleTimers 10
       = (advanceDue 1000 exampleTimers, 1, [(Reset 0 (Some 5) 600, 1), (Reduce 1 1 100, 4)])
   \<and> reduceCalls [(Reset 0 (Some 5) 600, 1), (Reduce 1 1 100, 4)]
       = reduceFirings 1000 (latestResetTime 1000 exampleTimers) exampleTimers"
proof -
  have h1: "list_all (\<lambda>(r, st). 0 < interval r \<and> 0 \<le> lastApplied st) exampleTimers"
    by (simp add: exampleTimers_def)
  have h2: "applyMissedRules 1000 exampleTimers 10
       = (advanceDue 1000 exampleTimers, 1, [(Reset 0 (Some 5) 600, 1), (Reduce 1 1 100, 4)])"
    by (simp add: exampleTimers_def applyMissedRules_def advanceDue_def isDue_def catchUpTime_def
        js_rem_def truthy_def canReduceCapacity_def Let_def)
  have "0 < (1::int) \<longrightarrow> reduceCalls [(Reset 0 (Some 5) 600, 1), (Reduce 1 1 100, 4)]
       = reduceFirings 1000 (latestResetTime 1000 exampleTimers) exampleTimers"
    using applyMissedRules_catch_up[OF h1 h2] by blast
  then show ?thesis using h1 h2 by simp
qed

text \<open>
  C4 as the specification words it counts the firings of a reduce rule from
  \<open>max(lastApplied, latestResetCatchUpTime)\<close>. With a reset rule (interval 600, last applied
  at 0) and a reduce rule added at 800 (interval 100), at time 1000 the reset catches up to
  600 and the code applies the reduce rule \<open>(1000 - 600) div 100 = 4\<close> times, where the
  specification's formula gives \<open>(1000 - max 800 600) div 100 = 2\<close>.
\<close>

theorem catch_up_counts_from_reset_counterexample:
  "applyMissedRules 1000 exampleTimers 10
     = (advanceDue 1000 exampleTimers, 1, [(Reset 0 (Some 5) 600, 1), (Reduce 1 1 100, 4)])
   \<and> latestResetTime 1000 exampleTimers = Some 600
   \<and> claimedReduceFirings 1000 (Some 600) exampleTimers = [(Reduce 1 1 100, 2)]"
  by (simp add: exampleTimers_def applyMissedRules_def advanceDue_def isDue_def catchUpTime_def
      js_rem_def truthy_def canReduceCapacity_def Let_def latestResetTime_def dueResetTimes_def
      claimedReduceFirings_def)

section \<open>Stopping the limiter\<close>

text \<open>
  C2. A task sleeps between its failure and its retry, and \<open>stop\<close> is called with
  \<open>stopTaskRetries\<close> alone. The guard of the rejection block of \<open>stop\<close> tests
  \<open>stopWaitingTasks\<close> twice and \<open>stopTaskRetries\<close> never, so the block is skipped: the retry
  timer stays and the task's promise is not settled. With \<open>stopAll\<close>, which sets the other
  flags too, the same state loses its retry timer and the task is rejected with \<open>stopped\<close>.
\<close>

theorem stop_with_stopTaskRetries_alone_keeps_retry_timers:
  "do {
     s \<leftarrow> retryScenario;
     (s', h) \<leftarrow> stop 20 (Some (noStopParams\<lparr>stopTaskRetries := True\<rparr>)) s;
     Some (retryTimers s, retryTimers s', settled s' 0)
   } = Some ([(0, 1010)], [(0, 1010)], None)
   \<and> do {
     s \<leftarrow> retryScenario;
     (s', h) \<leftarrow> stop 20 (Some (noStopParams\<lparr>stopAll := True\<rparr>)) s;
     Some (retryTimers s', settled s' 0)
   } = Some ([], Some (Rejected (CapacityLimiterError Stopped None)))"
  by code_simp

text \<open>
  C8. \<open>stop()\<close> is called while task 0 executes and task 1 waits, and then called again.
  The first call returns a promise that awaits \<open>stoppedPromise\<close> 0. The second call
  replaces \<open>this.stopped\<close> by a fresh object and creates \<open>stoppedPromise\<close> 1; when the queue
  has drained, only that one is resolved, and the promise of the first call is never
  fulfilled. Without the second call it is.
\<close>

theorem second_stop_orphans_first_stop_promise:
  "do {
     s \<leftarrow> twoTasksScenario;
     (s1, h1) \<leftarrow> stop 5 None s;
     (s2, h2) \<leftarrow> stop 6 None s1;
     s3 \<leftarrow> callbackResolves 7 0 s2;
     s4 \<leftarrow> callbackResolves 8 1 s3;
     Some (awaitedStop h1, stopped s1, awaitedStop h2, stopped s2, queue s4, executingTasks s4,
           resolvedStops s4, stopFulfilled h1 s4, stopFulfilled h2 s4)
   } = Some (Some 0, Some \<lparr>stoppedPromise = Some 0\<rparr>, Some 1, Some \<lparr>stoppedPromise = Some 1\<rparr>,
             [], [], [1], False, True)
   \<and> do {
     s \<leftarrow> twoTasksScenario;
     (s1, h1) \<leftarrow> stop 5 None s;
     s3 \<leftarrow> callbackResolves 7 0 s1;
     s4 \<leftarrow> callbackResolves 8 1 s3;
     Some (resolvedStops s4, stopFulfilled h1 s4)
   } = Some ([0], True)"
  by code_simp

section \<open>The option minDelayBetweenTasks\<close>

text \<open>
  C9. The constructor has no check of \<open>minDelayBetweenTasks\<close>: the options of the test
  ``should reject negative values for minDelayBetweenTasks'' build a limiter, which keeps
  the value. Nor does the scheduler loop read the option: with \<open>minDelayBetweenTasks: 100\<close>,
  two tasks scheduled at time 0 are both executing at time 0.
\<close>

theorem minDelayBetweenTasks_neither_checked_nor_enforced:
  "do {
     s \<leftarrow> newLimiter (noOptions\<lparr>maxCapacity := Some 10, minDelayBetweenTasks := Some (- 100)\<rparr>);
     Some (minDelayBetweenTasks (getOptions s))
   } = Some (Some (- 100))
   \<and> do {
     s0 \<leftarrow> newLimiter (noOptions\<lparr>maxCapacity := Some 10, minDelayBetweenTasks := Some 100\<rparr>);
     s1 \<leftarrow> scheduled 0 noParams s0;
     s2 \<leftarrow> scheduled 0 noParams s1;
     Some (executingTasks s1, executingTasks s2, queue s2)
   } = Some ([0], [0, 1], [])"
  by code_simp

section \<open>Basic facts about the state\<close>

lemma updTask_simps [simp]:
  "usedCapacity (updTask i f s) = usedCapacity s"
  "usedConcurrent (updTask i f s) = usedConcurrent s"
  "queue (updTask i f s) = queue s"
  "tasksByTimeAdded (updTask i f s) = tasksByTimeAdded s"
  "tasksByTimeLimit (updTask i f s) = tasksByTimeLimit s"
  "options (updTask i f s) = options s"
  "releaseTimers (updTask i f s) = releaseTimers s"
  "releaseRuleTimersEnabled (updTask i f s) = releaseRuleTimersEnabled s"
  "retryTimers (updTask i f s) = retryTimers s"
  "awaitingHook (updTask i f s) = awaitingHook s"
  "executingTasks (updTask i f s) = executingTasks s"
  "unfinished (updTask i f s) = unfinished s"
  "stopped (updTask i f s) = stopped s"
  "nextTaskId (updTask i f s) = nextTaskId s"
  "settled (updTask i f s) = settled s"
  "resolvedStops (updTask i f s) = resolvedStops s"
  "nextPromise (updTask i f s) = nextPromise s"
  "tasks (updTask i f s) j = (if j = i then f (tasks s i) else tasks s j)"
  by (simp_all add: updTask_def)

lemma settle_simps [simp]:
  "usedCapacity (settle i out s) = usedCapacity s"
  "usedConcurrent (settle i out s) = usedConcurrent s"
  "queue (settle i out s) = queue s"
  "tasksByTimeAdded (settle i out s) = tasksByTimeAdded s"
  "tasksByTimeLimit (settle i out s) = tasksByTimeLimit s"
  "options (settle i out s) = options s"
  "releaseTimers (settle i out s) = releaseTimers s"
  "releaseRuleTimersEnabled (settle i out s) = releaseRuleTimersEnabled s"
  "retryTimers (settle i out s) = retryTimers s"
  "awaitingHook (settle i out s) = awaitingHook s"
  "executingTasks (settle i out s) = executingTasks s"
  "unfinished (settle i out s) = unfinished s"
  "stopped (settle i out s) = stopped s"
  "nextTaskId (settle i out s) = nextTaskId s"
  "tasks (settle i out s) = tasks s"
  "resolvedStops (settle i out s) = resolvedStops s"
  "nextPromise (settle i out s) = nextPromise s"
  by (simp_all add: settle_def)



lemma reject_simps [simp]:
  "usedCapacity (reject i e s) = usedCapacity s"
  "usedConcurrent (reject i e s) = usedConcurrent s"
  "queue (reject i e s) = queue s"
  "tasksByTimeAdded (reject i e s) = tasksByTimeAdded s"
  "tasksByTimeLimit (reject i e s) = tasksByTimeLimit s"
  "options (reject i e s) = options s"
  "releaseTimers (reject i e s) = releaseTimers s"
  "releaseRuleTimersEnabled (reject i e s) = releaseRuleTimersEnabled s"
  "retryTimers (reject i e s) = retryTimers s"
  "awaitingHook (reject i e s) = awaitingHook s"
  "executingTasks (reject i e s) = executingTasks s"
  "unfinished (reject i e s) = unfinished s"
  "stopped (reject i e s) = stopped s"
  "nextTaskId (reject i e s) = nextTaskId s"
  "tasks (reject i e s) = tasks s"
  "resolvedStops (reject i e s) = resolvedStops s"
  "nextPromise (reject i e s) = nextPromise s"
  by (simp_all add: reject_def)

lemma finishExecution_simps [simp]:
  "usedCapacity (finishExecution i s) = usedCapacity s"
  "usedConcurrent (finishExecution i s) = usedConcurrent s"
  "queue (finishExecution i s) = queue s"
  "tasksByTimeAdded (finishExecution i s) = tasksByTimeAdded s"
  "tasksByTimeLimit (finishExecution i s) = tasksByTimeLimit s"
  "options (finishExecution i s) = options s"
  "releaseTimers (finishExecution i s) = releaseTimers s"
  "releaseRuleTimersEnabled (finishExecution i s) = releaseRuleTimersEnabled s"
  "retryTimers (finishExecution i s) = retryTimers s"
  "awaitingHook (finishExecution i s) = awaitingHook s"
  "stopped (finishExecution i s) = stopped s"
  "nextTaskId (finishExecution i s) = nextTaskId s"
  "tasks (finishExecution i s) = tasks s"
  "settled (finishExecution i s) = settled s"
  "resolvedStops (finishExecution i s) = resolvedStops s"
  "nextPromise (finishExecution i s) = nextPromise s"
  by (simp_all add: finishExecution_def)

lemma applyFailRecovery_usedCapacity [simp]:
  "usedCapacity (applyFailRecovery now i e rnd s) = usedCapacity s"
  by (simp add: applyFailRecovery_def useStrategy_def setRetryTimer_def split: option.splits)

lemma releaseTaskResources_options [simp]:
  "options (releaseTaskResources i s) = options s"
  by (simp add: releaseTaskResources_def clearExecutionTimer_def releaseCapacity_def
      releaseConcurrent_def)

section \<open>Reserving and releasing capacity\<close>



section \<open>Aged tasks\<close>

text \<open>
  C6. Let the head of \<open>tasksByTimeLimit\<close> have \<open>timeLimit \<le> now\<close>. The loop's selection is
  that task if it fits the current capacity, whatever else is pending and whatever the
  priorities; if it does not fit, nothing is selected. For the loop as a whole, once it
  reaches the selection (the limiter is not stopped with an empty queue, and
  \<open>maxConcurrent\<close> is not reached): if the aged head does not fit, the loop returns the
  state as it is, so no task at all is dispatched; if it fits (its callback returning a
  promise), the loop dispatches it and goes on from the state after that dispatch.
\<close>

theorem aged_head_is_selected:
  assumes "peekFirst (tasksByTimeLimit s) = Some a"
    and "timeLimit (tasks s a) = Some limit"
    and "limit \<le> now"
  shows "(canFitTask s a \<longrightarrow> selectTask now s = Some (a, s))
       \<and> (\<not> canFitTask s a \<longrightarrow> selectTask now s = None)
       \<and> (\<not> (stopped s \<noteq> None \<and> queue s = []) \<and> \<not> concurrencyReached s \<longrightarrow>
             (\<not> canFitTask s a \<longrightarrow> startNextTaskIfPossible now s = Some s)
           \<and> (canFitTask s a \<and> callback (tasks s a) = ReturnsPromise \<longrightarrow>
                 startNextTaskIfPossible now s =
                   (if queue (dispatchTask now a s) = []
                    then Some (disableTimers (dispatchTask now a s))
                    else startNextTaskIfPossible now (dispatchTask now a s))
               \<and> a \<in> set (executingTasks (dispatchTask now a s))))"
proof -
  have sel: "selectTask now s = (if canFitTask s a then Some (a, s) else None)"
    using assms by (simp add: selectTask_def)
  have ex: "a \<in> set (executingTasks (dispatchTask now a s))"
    by (simp add: dispatchTask_def executeTask_def armExecutionTimer_def setAdd_def)
  have loop: "\<not> (stopped s \<noteq> None \<and> queue s = []) \<Longrightarrow> \<not> concurrencyReached s \<Longrightarrow>
      startNextTaskIfPossible now s =
        (if canFitTask s a then
           Option.bind
               (case callback (tasks s a) of
                  ReturnsPromise \<Rightarrow> Some (dispatchTask now a s)
                | ThrowsSync e rnd \<Rightarrow>
                    startNextTaskIfPossible now
                      (rejectTask now a e rnd (finishExecution a (dispatchTask now a s))))
               (\<lambda>s3. if queue s3 = [] then Some (disableTimers s3)
                      else startNextTaskIfPossible now s3)
         else Some s)"
    by (subst startNextTaskIfPossible.simps) (auto simp: sel)
  show ?thesis using sel ex loop by simp
qed

theorem aged_head_is_selected_witness:
  "peekFirst (tasksByTimeLimit (agedState 0)) = Some 0
   \<and> timeLimit (tasks (agedState 0) 0) = Some 50 \<and> (50::int) \<le> 60
   \<and> priority (tasks (agedState 0) 1) < priority (tasks (agedState 0) 0)
   \<and> canFitTask (agedState 0) 0
   \<and> selectTask 60 (agedState 0) = Some (0, agedState 0)
   \<and> \<not> canFitTask (agedState 8) 0 \<and> canFitTask (agedState 8) 1
   \<and> stopped (agedState 8) = None \<and> \<not> concurrencyReached (agedState 8)
   \<and> startNextTaskIfPossible 60 (agedState 8) = Some (agedState 8)"
proof -
  have h: "peekFirst (tasksByTimeLimit (agedState u)) = Some 0"
    "timeLimit (tasks (agedState u) 0) = Some 50" for u
    by (simp_all add: agedState_def peekFirst_def)
  have g: "(50::int) \<le> 60" by simp
  have f: "canFitTask (agedState 0) 0" "\<not> canFitTask (agedState 8) 0" "canFitTask (agedState 8) 1"
    "stopped (agedState 8) = None" "\<not> concurrencyReached (agedState 8)"
    "priority (tasks (agedState 0) 1) < priority (tasks (agedState 0) 0)"
    by (simp_all add: agedState_def canFitTask_def concurrencyReached_def emptyTask_def)
  show ?thesis
    using aged_head_is_selected[OF h(1) h(2) g, of 0] aged_head_is_selected[OF h(1) h(2) g, of 8] h f
    by simp
qed

section \<open>The deadline index\<close>

lemma set_putBefore [simp]: "set (putBefore v c xs) = insert v (set xs)"
  by (induction xs) auto






lemma enableTimers_fields [simp]:
  "tasks (enableTimers now s) = tasks s"
  "tasksByTimeLimit (enableTimers now s) = tasksByTimeLimit s"
  "queue (enableTimers now s) = queue s"
  "options (enableTimers now s) = options s"
  by (simp_all add: enableTimers_def split: prod.splits)






section \<open>Admission order within a priority\<close>



lemma pickFirstMatching_Some:
  "pickFirstMatching c xs = (Some b, r) \<Longrightarrow>
     \<exists>pre post. xs = pre @ b # post \<and> (\<forall>x \<in> set pre. \<not> c x) \<and> c b \<and> r = pre @ post"
proof (induction xs arbitrary: r)
  case Nil
  then show ?case by simp
next
  case (Cons x xs)
  show ?case
  proof (cases "c x")
    case True
    then have "x = b" "r = xs" using Cons.prems by auto
    then have "x # xs = [] @ b # xs \<and> (\<forall>x \<in> set []. \<not> c x) \<and> c b \<and> r = [] @ xs"
      using True by simp
    then show ?thesis by blast
  next
    case False
    then obtain r' where r': "pickFirstMatching c xs = (Some b, r')" "r = x # r'"
      using Cons.prems by (auto split: prod.splits)
    from Cons.IH[OF r'(1)] obtain pre post where h: "xs = pre @ b # post"
      "\<forall>x \<in> set pre. \<not> c x" "c b" "r' = pre @ post" by blast
    have "x # xs = (x # pre) @ b # post \<and> (\<forall>y \<in> set (x # pre). \<not> c y) \<and> c b
        \<and> r = (x # pre) @ post" using h r'(2) False by simp
    then show ?thesis by blast
  qed
qed





section \<open>Failures raised by the engine\<close>




lemma removeTaskFromQueues_simps [simp]:
  "tasks (removeTaskFromQueues i s) = tasks s"
  "settled (removeTaskFromQueues i s) = settled s"
  "retryTimers (removeTaskFromQueues i s) = retryTimers s"
  "awaitingHook (removeTaskFromQueues i s) = awaitingHook s"
  "options (removeTaskFromQueues i s) = options s"
  "usedCapacity (removeTaskFromQueues i s) = usedCapacity s"
  "usedConcurrent (removeTaskFromQueues i s) = usedConcurrent s"
  by (simp_all add: removeTaskFromQueues_def)



lemma rejectEach_simps [simp]:
  "retryTimers (rejectEach e js s) = retryTimers s"
  "awaitingHook (rejectEach e js s) = awaitingHook s"
  "tasks (rejectEach e js s) = tasks s"
  "executingTasks (rejectEach e js s) = executingTasks s"
  "queue (rejectEach e js s) = queue s"
  "options (rejectEach e js s) = options s"
  "usedCapacity (rejectEach e js s) = usedCapacity s"
  "usedConcurrent (rejectEach e js s) = usedConcurrent s"
  unfolding rejectEach_def
  by (induction js arbitrary: s) simp_all



lemma releaseTaskResources_keeps [simp]:
  "settled (releaseTaskResources i s) = settled s"
  "retryTimers (releaseTaskResources i s) = retryTimers s"
  "awaitingHook (releaseTaskResources i s) = awaitingHook s"
  "params (tasks (releaseTaskResources i s) j) = params (tasks s j)"
  "retryAttempt (tasks (releaseTaskResources i s) j) = retryAttempt (tasks s j)"
  by (simp_all add: releaseTaskResources_def clearExecutionTimer_def releaseCapacity_def
      releaseConcurrent_def)

lemma theFailRecoveryStrategy_release [simp]:
  "theFailRecoveryStrategy (releaseTaskResources i s) j = theFailRecoveryStrategy s j"
  "theFailRecoveryStrategy (finishExecution i s) j = theFailRecoveryStrategy s j"
  "nextRetryAttempt (releaseTaskResources i s) j = nextRetryAttempt s j"
  "nextRetryAttempt (finishExecution i s) j = nextRetryAttempt s j"
  by (simp_all add: theFailRecoveryStrategy_def nextRetryAttempt_def)






section \<open>The bounds on capacity and concurrency\<close>

lemma good_bounds: "good s \<Longrightarrow> bounds s"
  by (auto simp: good_def capOk_def concOk_def bounds_def split: option.splits)

lemma goodI:
  assumes "good s"
    and "options s' = options s"
    and "usedCapacity s' \<le> max 0 (usedCapacity s)"
    and "usedConcurrent s' \<le> max 0 (usedConcurrent s)"
    and "map fst (releaseTimers s') = map fst (releaseTimers s)"
    and "\<And>j r. reservedCapacity (tasks s' j) = Some r \<Longrightarrow> 0 \<le> r"
    and "\<And>j r. reservedConcurrent (tasks s' j) = Some r \<Longrightarrow> 0 \<le> r"
    and "\<And>j. j \<in> known s' \<Longrightarrow> 0 \<le> capacity (tasks s' j) \<and> j < nextTaskId s'"
  shows "good s'"
proof -
  have "capOk s'" using assms(1-3,5) by (auto simp: good_def capOk_def split: option.splits)
  moreover have "concOk s'" using assms(1,2,4) by (auto simp: good_def concOk_def split: option.splits)
  moreover have "resOk s'" using assms(6,7) by (simp add: resOk_def)
  moreover have "pendOk s'" using assms(8) by (simp add: pendOk_def)
  moreover have "idsOk s'" using assms(8) by (simp add: idsOk_def)
  ultimately show ?thesis by (simp add: good_def)
qed

lemma good_resD:
  assumes "good s"
  shows "reservedCapacity (tasks s j) = Some r \<Longrightarrow> 0 \<le> r"
    and "reservedConcurrent (tasks s j) = Some r \<Longrightarrow> 0 \<le> r"
  using assms by (auto simp: good_def resOk_def)

lemma good_knownD:
  assumes "good s" "j \<in> known s"
  shows "0 \<le> capacity (tasks s j)" and "j < nextTaskId s"
  using assms by (auto simp: good_def pendOk_def idsOk_def)

lemma good_frame:
  assumes "good s"
    and "options s' = options s" "usedCapacity s' = usedCapacity s"
    and "usedConcurrent s' = usedConcurrent s"
    and "map fst (releaseTimers s') = map fst (releaseTimers s)"
    and "\<And>j. reservedCapacity (tasks s' j) = reservedCapacity (tasks s j)"
    and "\<And>j. reservedConcurrent (tasks s' j) = reservedConcurrent (tasks s j)"
    and "\<And>j. capacity (tasks s' j) = capacity (tasks s j)"
    and "known s' \<subseteq> known s" "nextTaskId s' = nextTaskId s"
  shows "good s'"
proof (rule goodI[OF assms(1)])
  show "\<And>j r. reservedCapacity (tasks s' j) = Some r \<Longrightarrow> 0 \<le> r"
    using good_resD(1)[OF assms(1)] assms(6) by simp
  show "\<And>j r. reservedConcurrent (tasks s' j) = Some r \<Longrightarrow> 0 \<le> r"
    using good_resD(2)[OF assms(1)] assms(7) by simp
  show "\<And>j. j \<in> known s' \<Longrightarrow> 0 \<le> capacity (tasks s' j) \<and> j < nextTaskId s'"
    using good_knownD[OF assms(1)] assms(8,9,10) by auto
qed (simp_all add: assms)

lemma good_reject: "good s \<Longrightarrow> good (reject i e s)"
  by (erule good_frame) (simp_all add: known_def)

lemma good_settle: "good s \<Longrightarrow> good (settle i out s)"
  by (erule good_frame) (simp_all add: known_def)

lemma good_rejectEach: "good s \<Longrightarrow> good (rejectEach e js s)"
  unfolding rejectEach_def by (induction js arbitrary: s) (simp_all add: good_reject)

lemma good_finishExecution: "good s \<Longrightarrow> good (finishExecution i s)"
  by (erule good_frame) (auto simp: known_def finishExecution_def)

lemma good_stoppedResolve: "good s \<Longrightarrow> good (stoppedResolve s)"
  by (erule good_frame) (auto simp: known_def stoppedResolve_def split: option.splits)

lemma good_disableTimers: "good s \<Longrightarrow> good (disableTimers s)"
  by (erule good_frame) (auto simp: known_def disableTimers_def comp_def case_prod_beta)

lemma good_updTask:
  assumes "good s"
    and "capacity (f (tasks s i)) = capacity (tasks s i)"
    and "reservedCapacity (f (tasks s i)) = reservedCapacity (tasks s i)"
    and "reservedConcurrent (f (tasks s i)) = reservedConcurrent (tasks s i)"
  shows "good (updTask i f s)"
  by (rule good_frame[OF assms(1)]) (simp_all add: assms known_def)

lemma good_releaseConcurrent: "good s \<Longrightarrow> good (releaseConcurrent i s)"
proof (cases "truthy (reservedConcurrent (tasks s i))")
  case False
  assume "good s" then show ?thesis using False by (auto simp add: releaseConcurrent_def)
next
  case True
  assume g: "good s"
  obtain r where r: "reservedConcurrent (tasks s i) = Some r" using True
    by (auto simp: truthy_def split: option.splits)
  have r0: "0 \<le> r" using good_resD[OF g] r by blast
  have eq: "releaseConcurrent i s =
      (updTask i (\<lambda>t. t\<lparr>reservedConcurrent := Some 0\<rparr>) s)\<lparr>usedConcurrent := max 0 (usedConcurrent s - r)\<rparr>"
    using True r by (simp add: releaseConcurrent_def)
  show ?thesis unfolding eq
  proof (rule goodI[OF g])
    show "\<And>j v. reservedCapacity (tasks ((updTask i (\<lambda>t. t\<lparr>reservedConcurrent := Some 0\<rparr>) s)
        \<lparr>usedConcurrent := max 0 (usedConcurrent s - r)\<rparr>) j) = Some v \<Longrightarrow> 0 \<le> v"
      using good_resD(1)[OF g] by (simp split: if_splits)
    show "\<And>j v. reservedConcurrent (tasks ((updTask i (\<lambda>t. t\<lparr>reservedConcurrent := Some 0\<rparr>) s)
        \<lparr>usedConcurrent := max 0 (usedConcurrent s - r)\<rparr>) j) = Some v \<Longrightarrow> 0 \<le> v"
      using good_resD(2)[OF g] by (simp split: if_splits)
    show "\<And>j. j \<in> known ((updTask i (\<lambda>t. t\<lparr>reservedConcurrent := Some 0\<rparr>) s)
        \<lparr>usedConcurrent := max 0 (usedConcurrent s - r)\<rparr>) \<Longrightarrow>
        0 \<le> capacity (tasks ((updTask i (\<lambda>t. t\<lparr>reservedConcurrent := Some 0\<rparr>) s)
        \<lparr>usedConcurrent := max 0 (usedConcurrent s - r)\<rparr>) j)
        \<and> j < nextTaskId ((updTask i (\<lambda>t. t\<lparr>reservedConcurrent := Some 0\<rparr>) s)
        \<lparr>usedConcurrent := max 0 (usedConcurrent s - r)\<rparr>)"
      using good_knownD[OF g] by (auto simp: known_def)
  qed (use r0 in simp_all)
qed

lemma good_releaseCapacity: "good s \<Longrightarrow> good (releaseCapacity i s)"
proof (cases "truthy (reservedCapacity (tasks s i)) \<and> maxCapacity (options s) \<noteq> None")
  case False
  assume "good s" then show ?thesis using False by (auto simp add: releaseCapacity_def)
next
  case True
  assume g: "good s"
  obtain r where r: "reservedCapacity (tasks s i) = Some r" using True
    by (auto simp: truthy_def split: option.splits)
  have r0: "0 \<le> r" using good_resD[OF g] r by blast
  have eq: "releaseCapacity i s =
      (updTask i (\<lambda>t. t\<lparr>reservedCapacity := Some 0\<rparr>) s)\<lparr>usedCapacity := max 0 (usedCapacity s - r)\<rparr>"
    using True r by (simp add: releaseCapacity_def)
  show ?thesis unfolding eq
  proof (rule goodI[OF g])
    show "\<And>j v. reservedCapacity (tasks ((updTask i (\<lambda>t. t\<lparr>reservedCapacity := Some 0\<rparr>) s)
        \<lparr>usedCapacity := max 0 (usedCapacity s - r)\<rparr>) j) = Some v \<Longrightarrow> 0 \<le> v"
      using good_resD(1)[OF g] by (simp split: if_splits)
    show "\<And>j v. reservedConcurrent (tasks ((updTask i (\<lambda>t. t\<lparr>reservedCapacity := Some 0\<rparr>) s)
        \<lparr>usedCapacity := max 0 (usedCapacity s - r)\<rparr>) j) = Some v \<Longrightarrow> 0 \<le> v"
      using good_resD(2)[OF g] by (simp split: if_splits)
    show "\<And>j. j \<in> known ((updTask i (\<lambda>t. t\<lparr>reservedCapacity := Some 0\<rparr>) s)
        \<lparr>usedCapacity := max 0 (usedCapacity s - r)\<rparr>) \<Longrightarrow>
        0 \<le> capacity (tasks ((updTask i (\<lambda>t. t\<lparr>reservedCapacity := Some 0\<rparr>) s)
        \<lparr>usedCapacity := max 0 (usedCapacity s - r)\<rparr>) j)
        \<and> j < nextTaskId ((updTask i (\<lambda>t. t\<lparr>reservedCapacity := Some 0\<rparr>) s)
        \<lparr>usedCapacity := max 0 (usedCapacity s - r)\<rparr>)"
      using good_knownD[OF g] by (auto simp: known_def)
  qed (use r0 in simp_all)
qed

lemma good_releaseTaskResources: "good s \<Longrightarrow> good (releaseTaskResources i s)"
  unfolding releaseTaskResources_def clearExecutionTimer_def
  by (simp add: good_updTask good_releaseCapacity good_releaseConcurrent)

lemma known_releaseTaskResources [simp]: "known (releaseTaskResources i s) = known s"
  by (simp add: known_def releaseTaskResources_def clearExecutionTimer_def releaseCapacity_def
      releaseConcurrent_def)

lemma releaseTaskResources_ids [simp]:
  "nextTaskId (releaseTaskResources i s) = nextTaskId s"
  "capacity (tasks (releaseTaskResources i s) j) = capacity (tasks s j)"
  by (simp_all add: releaseTaskResources_def clearExecutionTimer_def releaseCapacity_def
      releaseConcurrent_def)

lemma good_setRetryTimer:
  assumes "good s" "i < nextTaskId s" "0 \<le> capacity (tasks s i)"
  shows "good (setRetryTimer now i timeout s)"
proof (rule goodI[OF assms(1)])
  show "\<And>j r. reservedCapacity (tasks (setRetryTimer now i timeout s) j) = Some r \<Longrightarrow> 0 \<le> r"
    using good_resD(1)[OF assms(1)] by (simp add: setRetryTimer_def split: if_splits)
  show "\<And>j r. reservedConcurrent (tasks (setRetryTimer now i timeout s) j) = Some r \<Longrightarrow> 0 \<le> r"
    using good_resD(2)[OF assms(1)] by (simp add: setRetryTimer_def split: if_splits)
  show "\<And>j. j \<in> known (setRetryTimer now i timeout s) \<Longrightarrow>
      0 \<le> capacity (tasks (setRetryTimer now i timeout s) j)
      \<and> j < nextTaskId (setRetryTimer now i timeout s)"
    using good_knownD[OF assms(1)] assms(2,3) by (auto simp: setRetryTimer_def known_def)
qed (simp_all add: setRetryTimer_def)

lemma good_awaitHook:
  assumes "good s" "i < nextTaskId s" "0 \<le> capacity (tasks s i)"
  shows "good (s\<lparr>awaitingHook := awaitingHook s @ [(i, e)]\<rparr>)"
proof (rule goodI[OF assms(1)])
  show "\<And>j. j \<in> known (s\<lparr>awaitingHook := awaitingHook s @ [(i, e)]\<rparr>) \<Longrightarrow>
      0 \<le> capacity (tasks (s\<lparr>awaitingHook := awaitingHook s @ [(i, e)]\<rparr>) j)
      \<and> j < nextTaskId (s\<lparr>awaitingHook := awaitingHook s @ [(i, e)]\<rparr>)"
    using good_knownD[OF assms(1)] assms(2,3) by (auto simp: known_def)
qed (use good_resD[OF assms(1)] in simp_all)

lemma good_applyFailRecovery:
  assumes "good s" "i < nextTaskId s" "0 \<le> capacity (tasks s i)"
  shows "good (applyFailRecovery now i e rnd s)"
proof -
  let ?s1 = "updTask i (\<lambda>t. t\<lparr>retryAttempt := Some (nextRetryAttempt s i)\<rparr>) s"
  have g1: "good ?s1" using assms(1) by (simp add: good_updTask)
  have i1: "i < nextTaskId ?s1" "0 \<le> capacity (tasks ?s1 i)" using assms(2,3) by simp_all
  have "good (useStrategy now i strategy e a rnd ?s1)" for strategy a
    unfolding useStrategy_def
    using good_awaitHook[OF g1 i1] good_reject[OF g1] good_setRetryTimer[OF g1 i1]
    by simp
  then show ?thesis using good_reject[OF assms(1)]
    by (simp add: applyFailRecovery_def split: option.splits)
qed

lemma good_rejectTask:
  assumes "good s" "i < nextTaskId s" "0 \<le> capacity (tasks s i)"
  shows "good (rejectTask now i e rnd s)"
  unfolding rejectTask_def
  using assms by (intro good_applyFailRecovery good_releaseTaskResources) simp_all

lemma scanQueue_Some:
  assumes "scanQueue s = Some (i, s1)"
  shows "\<exists>q. s1 = s\<lparr>queue := q\<rparr> \<and> set q \<subseteq> set (queue s)"
    and "i \<in> set (queue s)" and "canFitTask s i"
proof -
  obtain q where pk: "pickFirstMatching (canFitTask s) (queue s) = (Some i, q)"
    and s1: "s1 = s\<lparr>queue := q\<rparr>"
    using assms by (auto simp: scanQueue_def split: prod.splits option.splits)
  obtain pre post where sp: "queue s = pre @ i # post" "canFitTask s i" "q = pre @ post"
    using pickFirstMatching_Some[OF pk] by blast
  show "\<exists>q. s1 = s\<lparr>queue := q\<rparr> \<and> set q \<subseteq> set (queue s)" using s1 sp by auto
  show "i \<in> set (queue s)" using sp by simp
  show "canFitTask s i" using sp by simp
qed

lemma selectTask_Some:
  assumes "selectTask now s = Some (i, s1)"
  shows "\<exists>q. s1 = s\<lparr>queue := q\<rparr> \<and> set q \<subseteq> set (queue s)"
    and "i \<in> set (queue s) \<union> set (tasksByTimeLimit s)" and "canFitTask s i"
proof -
  have c: "scanQueue s = Some (i, s1)
      \<or> (peekFirst (tasksByTimeLimit s) = Some i \<and> canFitTask s i \<and> s1 = s)"
    using assms unfolding selectTask_def
    by (simp split: option.splits if_splits)
  have a: "(\<exists>q. s1 = s\<lparr>queue := q\<rparr> \<and> set q \<subseteq> set (queue s))
      \<and> i \<in> set (queue s) \<union> set (tasksByTimeLimit s) \<and> canFitTask s i"
  proof (cases "scanQueue s = Some (i, s1)")
    case True
    then show ?thesis using scanQueue_Some[OF True] by simp
  next
    case False
    then have aged: "peekFirst (tasksByTimeLimit s) = Some i" "canFitTask s i" "s1 = s"
      using c by simp_all
    have "\<exists>q. s1 = s\<lparr>queue := q\<rparr> \<and> set q \<subseteq> set (queue s)"
      unfolding aged(3) by (rule exI[of _ "queue s"]) simp
    moreover have "i \<in> set (tasksByTimeLimit s)" using aged(1)
      by (simp add: peekFirst_def split: list.splits)
    ultimately show ?thesis using aged(2) by simp
  qed
  show "\<exists>q. s1 = s\<lparr>queue := q\<rparr> \<and> set q \<subseteq> set (queue s)" using a by simp
  show "i \<in> set (queue s) \<union> set (tasksByTimeLimit s)" using a by simp
  show "canFitTask s i" using a by simp
qed

lemma good_shrink_queue:
  assumes "good s" "set q \<subseteq> set (queue s)"
  shows "good (s\<lparr>queue := q\<rparr>)"
  by (rule good_frame[OF assms(1)]) (use assms(2) in \<open>auto simp: known_def\<close>)

lemma dispatchTask_fields:
  "options (dispatchTask now i s) = options s"
  "usedCapacity (dispatchTask now i s) =
     (if maxCapacity (options s) \<noteq> None then usedCapacity s + capacity (tasks s i)
      else usedCapacity s)"
  "usedConcurrent (dispatchTask now i s) = usedConcurrent s + 1"
  "releaseTimers (dispatchTask now i s) = releaseTimers s"
  "nextTaskId (dispatchTask now i s) = nextTaskId s"
  "capacity (tasks (dispatchTask now i s) j) = capacity (tasks s j)"
  "reservedConcurrent (tasks (dispatchTask now i s) j) =
     (if j = i then Some 1 else reservedConcurrent (tasks s j))"
  "retryTimers (dispatchTask now i s) = retryTimers s"
  "awaitingHook (dispatchTask now i s) = awaitingHook s"
  by (simp_all add: dispatchTask_def executeTask_def armExecutionTimer_def removeFromPending_def
      reserveConcurrent_def clearQueueWaitingTimer_def reserveCapacity_def)

lemma dispatchTask_reserved:
  "reservedCapacity (tasks (dispatchTask now i s) j) = Some r \<Longrightarrow>
     reservedCapacity (tasks s j) = Some r \<or> r = capacity (tasks s i)"
  by (simp add: dispatchTask_def executeTask_def armExecutionTimer_def removeFromPending_def
      reserveConcurrent_def clearQueueWaitingTimer_def reserveCapacity_def split: if_splits)

lemma dispatchTask_lists:
  "set (queue (dispatchTask now i s)) \<subseteq> set (queue s)"
  "set (tasksByTimeLimit (dispatchTask now i s)) \<subseteq> set (tasksByTimeLimit s)"
  "set (unfinished (dispatchTask now i s)) \<subseteq> insert i (set (unfinished s))"
proof -
  have r: "set (remove1 i xs) \<subseteq> set xs" for xs :: "task_id list" by (rule set_remove1_subset)
  show "set (queue (dispatchTask now i s)) \<subseteq> set (queue s)"
    using r[of "queue s"]
    by (simp add: dispatchTask_def executeTask_def armExecutionTimer_def removeFromPending_def
        reserveConcurrent_def clearQueueWaitingTimer_def reserveCapacity_def delete_def)
  show "set (tasksByTimeLimit (dispatchTask now i s)) \<subseteq> set (tasksByTimeLimit s)"
    using r[of "tasksByTimeLimit s"]
    by (simp add: dispatchTask_def executeTask_def armExecutionTimer_def removeFromPending_def
        reserveConcurrent_def clearQueueWaitingTimer_def reserveCapacity_def delete_def)
  show "set (unfinished (dispatchTask now i s)) \<subseteq> insert i (set (unfinished s))"
    by (auto simp: dispatchTask_def executeTask_def armExecutionTimer_def removeFromPending_def
        reserveConcurrent_def clearQueueWaitingTimer_def reserveCapacity_def setAdd_def)
qed

lemma known_dispatchTask: "known (dispatchTask now i s) \<subseteq> insert i (known s)"
  using dispatchTask_lists[of now i s] by (auto simp: known_def dispatchTask_fields)

lemma good_dispatchTask:
  assumes g: "good s" and fit: "canFitTask s i" and nc: "\<not> concurrencyReached s"
    and i: "i < nextTaskId s" "0 \<le> capacity (tasks s i)"
  shows "good (dispatchTask now i s)"
proof -
  let ?d = "dispatchTask now i s"
  have "capOk ?d" using g fit
    by (auto simp: good_def capOk_def canFitTask_def dispatchTask_fields split: option.splits)
  moreover have "concOk ?d" using g nc
    by (auto simp: good_def concOk_def concurrencyReached_def dispatchTask_fields
        split: option.splits)
  moreover have "resOk ?d" unfolding resOk_def
  proof (intro allI conjI impI)
    fix j r assume "reservedCapacity (tasks ?d j) = Some r"
    then show "0 \<le> r" using dispatchTask_reserved[of now i s j r] good_resD(1)[OF g] i(2) by auto
  next
    fix j r assume "reservedConcurrent (tasks ?d j) = Some r"
    then show "0 \<le> r" using good_resD(2)[OF g, of j r]
      by (auto simp: dispatchTask_fields split: if_splits)
  qed
  moreover have "pendOk ?d" unfolding pendOk_def
    using known_dispatchTask[of now i s] good_knownD(1)[OF g] i(2)
    by (auto simp: dispatchTask_fields)
  moreover have "idsOk ?d" unfolding idsOk_def
    using known_dispatchTask[of now i s] good_knownD(2)[OF g] i(1)
    by (auto simp: dispatchTask_fields)
  ultimately show ?thesis by (simp add: good_def)
qed

lemma good_startNextTaskIfPossible:
  assumes "startNextTaskIfPossible now s = Some s'"
  shows "good s \<longrightarrow> good s'"
proof (rule startNextTaskIfPossible.raw_induct
    [where P = "\<lambda>now s y. good s \<longrightarrow> good y", OF _ assms], goal_cases)
  case (1 f now s y)
  note IH = 1(1) and eq = 1(2)
  show ?case
  proof
    assume g: "good s"
    show "good y"
    proof (cases "stopped s \<noteq> None \<and> queue s = []")
      case True
      then have "y = stoppedResolve s" using eq by auto
      then show ?thesis using g by (simp add: good_stoppedResolve)
    next
      case False
      note ns = this
      show ?thesis
      proof (cases "concurrencyReached s")
        case True
        then have "y = s" using eq ns by auto
        then show ?thesis using g by simp
      next
        case False
        note nc = this
        show ?thesis
        proof (cases "selectTask now s")
          case None
          then have "y = s" using eq ns nc by auto
          then show ?thesis using g by simp
        next
          case (Some p)
          obtain i s1 where p: "p = (i, s1)" by (cases p)
          have sel: "selectTask now s = Some (i, s1)" using Some p by simp
          obtain q where s1: "s1 = s\<lparr>queue := q\<rparr>" and q: "set q \<subseteq> set (queue s)"
            using selectTask_Some(1)[OF sel] by blast
          have ik: "i \<in> known s" using selectTask_Some(2)[OF sel] by (auto simp: known_def)
          have g1: "good s1" using good_shrink_queue[OF g q] s1 by simp
          have fit1: "canFitTask s1 i" using selectTask_Some(3)[OF sel] s1
            by (simp add: canFitTask_def split: option.splits)
          have nc1: "\<not> concurrencyReached s1" using nc s1 by (simp add: concurrencyReached_def split: option.splits)
          have i1: "i < nextTaskId s1" "0 \<le> capacity (tasks s1 i)"
            using good_knownD[OF g ik] s1 by simp_all
          have gd: "good (dispatchTask now i s1)"
            using good_dispatchTask[OF g1 fit1 nc1 i1] .
          define m where "m = (case callback (tasks s1 i) of
              ReturnsPromise \<Rightarrow> Some (dispatchTask now i s1)
            | ThrowsSync e rnd \<Rightarrow>
                f now (rejectTask now i e rnd (finishExecution i (dispatchTask now i s1))))"
          have eq2: "Option.bind m
              (\<lambda>s3. if queue s3 = [] then Some (disableTimers s3) else f now s3) = Some y"
            using eq ns nc sel unfolding m_def by (auto split: if_splits)
          then obtain s3 where m3: "m = Some s3"
            and fin: "(if queue s3 = [] then Some (disableTimers s3) else f now s3) = Some y"
            by (cases m) auto
          have g3: "good s3"
          proof (cases "callback (tasks s1 i)")
            case ReturnsPromise
            then show ?thesis using m3 gd by (simp add: m_def)
          next
            case (ThrowsSync e rnd)
            let ?r = "rejectTask now i e rnd (finishExecution i (dispatchTask now i s1))"
            have fr: "f now ?r = Some s3" using m3 ThrowsSync by (simp add: m_def)
            have "good ?r"
              by (rule good_rejectTask[OF good_finishExecution[OF gd]])
                 (use i1 in \<open>simp_all add: dispatchTask_fields\<close>)
            then show ?thesis using IH[OF fr] by simp
          qed
          show ?thesis
          proof (cases "queue s3 = []")
            case True
            then have "y = disableTimers s3" using fin by simp
            then show ?thesis using g3 by (simp add: good_disableTimers)
          next
            case False
            then have "f now s3 = Some y" using fin by simp
            then show ?thesis using IH g3 by blast
          qed
        qed
      qed
    qed
  qed
qed

lemma good_capI:
  assumes "good s" and "options s' = options s"
    and "\<And>m. maxCapacity (options s) = Some m \<Longrightarrow> usedCapacity s' \<le> m"
    and "usedConcurrent s' = usedConcurrent s"
    and "map fst (releaseTimers s') = map fst (releaseTimers s)"
    and "tasks s' = tasks s" "known s' = known s" "nextTaskId s' = nextTaskId s"
  shows "good s'"
proof -
  have "capOk s'" using assms(1,2,3,5) by (auto simp: good_def capOk_def split: option.splits)
  moreover have "concOk s'" using assms(1,2,4) by (auto simp: good_def concOk_def split: option.splits)
  moreover have "resOk s'" using assms(1,6) by (simp add: good_def resOk_def)
  moreover have "pendOk s'" using assms(1,6,7) by (simp add: good_def pendOk_def)
  moreover have "idsOk s'" using assms(1,7,8) by (simp add: good_def idsOk_def)
  ultimately show ?thesis by (simp add: good_def)
qed

lemma good_capD:
  assumes "good s" "maxCapacity (options s) = Some m"
  shows "usedCapacity s \<le> m" "0 \<le> m" "rulesSafe m (map fst (releaseTimers s))"
  using assms by (simp_all add: good_def capOk_def)

lemma resetPass_rules:
  "resetPass now es lt lr = (es', t, tr) \<Longrightarrow> map fst es' = map fst es"
proof (induction es arbitrary: lt lr es' t tr)
  case Nil
  then show ?case by simp
next
  case (Cons e es)
  obtain r st where e: "e = (r, st)" by (cases e)
  show ?case using Cons.prems Cons.IH unfolding e
    by (auto simp: Let_def split: if_splits prod.splits)
qed

lemma resetPass_rule:
  assumes "resetPass now es lt lr = (es', t, tr)" "lr = None \<longrightarrow> lt = None"
  shows "(tr = None \<longrightarrow> t = None)
       \<and> (tr = lr \<or> (\<exists>r. tr = Some r \<and> r \<in> fst ` set es \<and> isReset r))"
  using assms
proof (induction es arbitrary: lt lr es' t tr)
  case Nil
  then show ?case by simp
next
  case (Cons e es)
  obtain r st where e: "e = (r, st)" by (cases e)
  show ?case
  proof (cases "isReset r \<and> isDue now r st")
    case False
    then obtain es1 where "resetPass now es lt lr = (es1, t, tr)"
      using Cons.prems(1) unfolding e by (auto split: prod.splits)
    from Cons.IH[OF this Cons.prems(2)] show ?thesis by auto
  next
    case True
    define newer where
      "newer = (\<not> truthy lt \<or> catchUpTime now r st > the lt)"
    obtain es1 where rp: "resetPass now es (if newer then Some (catchUpTime now r st) else lt)
        (if newer then Some r else lr) = (es1, t, tr)"
      using Cons.prems(1) True unfolding e newer_def
      by (auto simp: Let_def split: prod.splits)
    have inv: "(if newer then Some r else lr) = None
        \<longrightarrow> (if newer then Some (catchUpTime now r st) else lt) = None"
      using Cons.prems(2) by simp
    from Cons.IH[OF rp inv] True show ?thesis unfolding e by (auto split: if_splits)
  qed
qed

lemma reducePass_rules:
  "reducePass now lt es used = (es', u, calls) \<Longrightarrow> map fst es' = map fst es"
proof (induction es arbitrary: used es' u calls)
  case Nil
  then show ?case by simp
next
  case (Cons e es)
  obtain r st where e: "e = (r, st)" by (cases e)
  show ?case using Cons.prems Cons.IH unfolding e
    by (auto simp: Let_def split: if_splits prod.splits)
qed

lemma reducePass_only_resets:
  "list_all isReset (map fst es) \<Longrightarrow> reducePass now lt es used = (es', u, calls) \<Longrightarrow> u = used"
proof (induction es arbitrary: es' u calls)
  case Nil
  then show ?case by simp
next
  case (Cons e es)
  obtain r st where e: "e = (r, st)" by (cases e)
  show ?case using Cons.prems Cons.IH unfolding e
    by (auto split: prod.splits)
qed

lemma reducePass_bound:
  assumes "0 \<le> m" "used \<le> m" "list_all (ruleSafe m) (map fst es)"
    and "reducePass now None es used = (es', u, calls)"
  shows "u \<le> m"
  using assms(2-)
proof (induction es arbitrary: used es' u calls)
  case Nil
  then show ?case by simp
next
  case (Cons e es)
  obtain r st where e: "e = (r, st)" by (cases e)
  have safe: "ruleSafe m r" "list_all (ruleSafe m) (map fst es)"
    using Cons.prems(2) unfolding e by simp_all
  show ?case
  proof (cases "\<not> isReset r \<and> isDue now r st")
    case False
    then obtain es1 where "reducePass now None es used = (es1, u, calls)"
      using Cons.prems(3) unfolding e by (auto split: prod.splits)
    from Cons.IH[OF Cons.prems(1) safe(2) this] show ?thesis .
  next
    case True
    obtain k v iv where r: "r = Reduce k v iv" using True by (cases r) simp_all
    have v: "0 \<le> v" and iv: "0 < interval r" using safe(1) unfolding r ruleSafe_def by simp_all
    define n where "n = (catchUpTime now r st - lastApplied st) div interval r"
    have "lastApplied st < catchUpTime now r st" using catchUp_gt[OF iv] True by simp
    then have n0: "0 \<le> n" unfolding n_def using iv by (simp add: pos_imp_zdiv_nonneg_iff)
    define used1 where
      "used1 = (if canReduceCapacity used then applyRule r n used else used)"
    have "0 \<le> v * n" using v n0 by simp
    then have u1: "used1 \<le> m" using Cons.prems(1) assms(1) unfolding used1_def r by auto
    obtain es1 calls1 where "reducePass now None es used1 = (es1, u, calls1)"
      using Cons.prems(3) True unfolding e used1_def n_def
      by (auto simp: Let_def split: prod.splits)
    from Cons.IH[OF u1 safe(2) this] show ?thesis .
  qed
qed

lemma applyRule_once_bound:
  assumes "0 \<le> m" "used \<le> m" "ruleSafe m r"
  shows "applyRule r 1 used \<le> m"
  using assms by (cases r) (auto simp: ruleSafe_def split: option.splits)

lemma applyMissedRules_bound:
  assumes m: "0 \<le> m" "used \<le> m" and safe: "rulesSafe m (map fst timers)"
    and run: "applyMissedRules now timers used = (timers', used', calls)"
  shows "used' \<le> m" and "map fst timers' = map fst timers"
proof -
  obtain t1 lt lr where rp: "resetPass now timers None None = (t1, lt, lr)"
    by (cases "resetPass now timers None None") auto
  define used1 where "used1 = (case lr of None \<Rightarrow> used | Some r \<Rightarrow> applyRule r 1 used)"
  obtain calls1 where dp: "reducePass now lt t1 used1 = (timers', used', calls1)"
    using run rp unfolding applyMissedRules_def used1_def
    by (auto simp: Let_def split: prod.splits)
  have f1: "map fst t1 = map fst timers" using resetPass_rules[OF rp] .
  show "map fst timers' = map fst timers" using reducePass_rules[OF dp] f1 by simp
  have all: "list_all (ruleSafe m) (map fst t1)" using safe f1 by (simp add: rulesSafe_def)
  have rr: "(lr = None \<longrightarrow> lt = None)
      \<and> (lr = None \<or> (\<exists>r. lr = Some r \<and> r \<in> fst ` set timers \<and> isReset r))"
    using resetPass_rule[OF rp] by simp
  show "used' \<le> m"
  proof (cases lr)
    case None
    then have "lt = None" "used1 = used" using rr by (simp_all add: used1_def)
    then show ?thesis using reducePass_bound[OF m(1) m(2) all] dp by simp
  next
    case (Some r)
    then have r: "r \<in> set (map fst timers)" "isReset r" using rr by auto
    have rs: "ruleSafe m r" using safe r(1) by (auto simp: rulesSafe_def list_all_iff)
    have u1: "used1 = applyRule r 1 used" using Some by (simp add: used1_def)
    have b1: "used1 \<le> m" unfolding u1 using applyRule_once_bound[OF m rs] .
    consider (resets) "list_all isReset (map fst t1)" | (zero) "list_all resetsToZero (map fst timers)"
      using safe f1 by (auto simp: rulesSafe_def)
    then show ?thesis
    proof cases
      case resets
      then show ?thesis using reducePass_only_resets[OF resets dp] b1 by simp
    next
      case zero
      then have "resetsToZero r" using r(1) by (auto simp: list_all_iff)
      then have "used1 = 0" unfolding u1 using r(2)
        by (cases r) (auto simp: resetsToZero_def)
      then show ?thesis using reducePass_idle[of used1 now lt t1 timers' used' calls1] dp m(1)
        by simp
    qed
  qed
qed

lemma good_enableTimers: "good s \<Longrightarrow> good (enableTimers now s)"
proof (cases "releaseRuleTimersEnabled s")
  case True
  assume "good s" then show ?thesis using True by (simp add: enableTimers_def)
next
  case False
  assume g: "good s"
  obtain ts used calls where run: "applyMissedRules now (releaseTimers s) (usedCapacity s) = (ts, used, calls)"
    by (cases "applyMissedRules now (releaseTimers s) (usedCapacity s)") auto
  define ts' where "ts' = map (\<lambda>(r, st).
      (r, setRuleTimerWithDelay r st (interval r - (now - lastApplied st)))) ts"
  have eq: "enableTimers now s =
      s\<lparr>releaseRuleTimersEnabled := True, usedCapacity := used, releaseTimers := ts'\<rparr>"
    using False run by (simp add: enableTimers_def ts'_def)
  have f: "map fst ts' = map fst ts" by (simp add: ts'_def comp_def case_prod_beta)
  show ?thesis unfolding eq
  proof (rule good_capI[OF g])
    fix m assume mc: "maxCapacity (options s) = Some m"
    show "usedCapacity (s\<lparr>releaseRuleTimersEnabled := True, usedCapacity := used,
        releaseTimers := ts'\<rparr>) \<le> m"
      using applyMissedRules_bound(1)[OF good_capD(2,1,3)[OF g mc] run] by simp
  next
    show "map fst (releaseTimers (s\<lparr>releaseRuleTimersEnabled := True, usedCapacity := used,
        releaseTimers := ts'\<rparr>)) = map fst (releaseTimers s)"
    proof (cases "maxCapacity (options s)")
      case None
      show ?thesis using reducePass_rules resetPass_rules run f
        by (auto simp: applyMissedRules_def Let_def split: prod.splits)
    next
      case (Some m)
      show ?thesis using applyMissedRules_bound(2)[OF good_capD(2,1,3)[OF g Some] run] f by simp
    qed
  qed (simp_all add: known_def)
qed

lemma applyMissedRules_rules:
  "applyMissedRules now timers used = (timers', used', calls) \<Longrightarrow>
     map fst timers' = map fst timers"
  using reducePass_rules resetPass_rules
  by (auto simp: applyMissedRules_def Let_def split: prod.splits)

lemma good_getUsedCapacity: "good s \<Longrightarrow> good (snd (getUsedCapacity now s))"
proof (cases "releaseRuleTimersEnabled s")
  case True
  assume "good s" then show ?thesis using True by (simp add: getUsedCapacity_def)
next
  case False
  assume g: "good s"
  obtain ts used calls where run: "applyMissedRules now (releaseTimers s) (usedCapacity s) = (ts, used, calls)"
    by (cases "applyMissedRules now (releaseTimers s) (usedCapacity s)") auto
  have eq: "snd (getUsedCapacity now s) = s\<lparr>releaseTimers := ts, usedCapacity := used\<rparr>"
    using False run by (simp add: getUsedCapacity_def)
  show ?thesis unfolding eq
  proof (rule good_capI[OF g])
    fix m assume mc: "maxCapacity (options s) = Some m"
    show "usedCapacity (s\<lparr>releaseTimers := ts, usedCapacity := used\<rparr>) \<le> m"
      using applyMissedRules_bound(1)[OF good_capD(2,1,3)[OF g mc] run] by simp
  next
    show "map fst (releaseTimers (s\<lparr>releaseTimers := ts, usedCapacity := used\<rparr>))
        = map fst (releaseTimers s)"
      using applyMissedRules_rules[OF run] by simp
  qed (simp_all add: known_def)
qed

lemma good_applyRuleByInterval:
  assumes g: "good s" and r: "r \<in> fst ` set (releaseTimers s)"
    and run: "applyRuleByInterval now r s = Some s'"
  shows "good s'"
proof -
  define ts where "ts = map (\<lambda>(r', st). if r' = r then (r', st\<lparr>lastApplied := now\<rparr>) else (r', st))
      (releaseTimers s)"
  let ?s1 = "s\<lparr>releaseTimers := ts, usedCapacity := applyRule r 1 (usedCapacity s)\<rparr>"
  have lp: "startNextTaskIfPossible now ?s1 = Some s'"
    using run by (simp add: applyRuleByInterval_def ts_def)
  have f: "map fst ts = map fst (releaseTimers s)"
    unfolding ts_def by (induction "releaseTimers s") (auto simp: case_prod_beta)
  have "good ?s1"
  proof (rule good_capI[OF g])
    fix m assume mc: "maxCapacity (options s) = Some m"
    have "ruleSafe m r" using good_capD(3)[OF g mc] r by (auto simp: rulesSafe_def list_all_iff)
    then show "usedCapacity ?s1 \<le> m"
      using applyRule_once_bound[OF good_capD(2,1)[OF g mc]] by simp
  qed (simp_all add: known_def f)
  then show ?thesis using good_startNextTaskIfPossible[OF lp] by simp
qed

lemma good_ruleIntervalFires:
  assumes "good s" "ruleIntervalFires now r s = Some s'"
  shows "good s'"
proof (cases "map_of (releaseTimers s) r")
  case None
  then show ?thesis using assms by (simp add: ruleIntervalFires_def)
next
  case (Some st)
  then have "r \<in> fst ` set (releaseTimers s)" by (meson domI domIff map_of_eq_None_iff)
  then show ?thesis using assms Some good_applyRuleByInterval[OF assms(1)]
    by (auto simp: ruleIntervalFires_def split: if_splits)
qed

lemma good_ruleTimeoutFires:
  assumes "good s" "ruleTimeoutFires now r s = Some s'"
  shows "good s'"
proof (cases "map_of (releaseTimers s) r")
  case None
  then show ?thesis using assms by (simp add: ruleTimeoutFires_def)
next
  case (Some st)
  then have r: "r \<in> fst ` set (releaseTimers s)" by (meson domI domIff map_of_eq_None_iff)
  define ts where "ts = map (\<lambda>(r', st'). if r' = r
      then (r', st'\<lparr>timerId := None, intervalId := Some (interval r)\<rparr>) else (r', st'))
      (releaseTimers s)"
  have f: "map fst ts = map fst (releaseTimers s)"
    unfolding ts_def by (induction "releaseTimers s") (auto simp: case_prod_beta)
  have g1: "good (s\<lparr>releaseTimers := ts\<rparr>)"
    by (rule good_frame[OF assms(1)]) (simp_all add: known_def f)
  have r1: "r \<in> fst ` set (releaseTimers (s\<lparr>releaseTimers := ts\<rparr>))"
  proof -
    have "fst ` set ts = fst ` set (releaseTimers s)" using arg_cong[OF f, of set] by simp
    then show ?thesis using r by simp
  qed
  show ?thesis
  proof (cases "timerId st \<noteq> None")
    case False
    then show ?thesis using assms Some by (simp add: ruleTimeoutFires_def)
  next
    case True
    then have "applyRuleByInterval now r (s\<lparr>releaseTimers := ts\<rparr>) = Some s'"
      using assms(2) Some by (simp add: ruleTimeoutFires_def ts_def)
    then show ?thesis using good_applyRuleByInterval[OF g1 r1] by simp
  qed
qed

lemma good_setUsedCapacity:
  assumes "good s" "setUsedCapacity now used s = Some (err, s')"
  shows "good s'"
proof (cases "checkUsedCapacity (Some used) (maxCapacity (options s))")
  case (Some e)
  then show ?thesis using assms by (simp add: setUsedCapacity_def)
next
  case None
  then have lp: "startNextTaskIfPossible now (s\<lparr>usedCapacity := used\<rparr>) = Some s'"
    using assms(2) by (auto simp: setUsedCapacity_def bind_eq_Some_conv)
  have "good (s\<lparr>usedCapacity := used\<rparr>)"
  proof (rule good_capI[OF assms(1)])
    fix m assume "maxCapacity (options s) = Some m"
    then show "usedCapacity (s\<lparr>usedCapacity := used\<rparr>) \<le> m"
      using None by (simp add: checkUsedCapacity_def split: if_splits)
  qed (simp_all add: known_def)
  then show ?thesis using good_startNextTaskIfPossible[OF lp] by simp
qed

lemma good_adjustUsedCapacity:
  assumes "good s" "adjustUsedCapacity now diff s = Some (err, s')"
  shows "good s'"
proof (cases "maxCapacity (options s)")
  case None
  then show ?thesis using assms by (simp add: adjustUsedCapacity_def)
next
  case (Some m)
  let ?s1 = "s\<lparr>usedCapacity := min (max 0 (usedCapacity s + diff)) m\<rparr>"
  have lp: "startNextTaskIfPossible now ?s1 = Some s'"
    using assms(2) Some by (auto simp: adjustUsedCapacity_def bind_eq_Some_conv)
  have "good ?s1"
    by (rule good_capI[OF assms(1)]) (use Some in \<open>simp_all add: known_def\<close>)
  then show ?thesis using good_startNextTaskIfPossible[OF lp] by simp
qed

lemma good_removeTaskFromQueues: "good s \<Longrightarrow> good (removeTaskFromQueues i s)"
proof (erule good_frame)
  show "known (removeTaskFromQueues i s) \<subseteq> known s"
    using set_remove1_subset[of i "queue s"] set_remove1_subset[of i "tasksByTimeLimit s"]
    by (auto simp: known_def removeTaskFromQueues_def delete_def)
qed (simp_all add: removeTaskFromQueues_def)

lemma removeTaskFromQueues_nextTaskId [simp]:
  "nextTaskId (removeTaskFromQueues i s) = nextTaskId s"
  by (simp add: removeTaskFromQueues_def)

lemma good_queueOverflow:
  assumes "good s" "queueOverflow i s = (b, s2)"
  shows "good s2" and "tasks s2 = tasks s" and "nextTaskId s2 = nextTaskId s"
proof -
  have fr: "good (s\<lparr>tasksByTimeAdded := rest\<rparr>)" for rest
    by (rule good_frame[OF assms(1)]) (simp_all add: known_def)
  have "good s2 \<and> tasks s2 = tasks s \<and> nextTaskId s2 = nextTaskId s"
    using assms good_reject good_removeTaskFromQueues fr
    by (auto simp: queueOverflow_def
        split: if_splits queue_strategy.splits option.splits prod.splits)
  then show "good s2" and "tasks s2 = tasks s" and "nextTaskId s2 = nextTaskId s" by simp_all
qed

lemma set_putAfterFromTail [simp]: "set (putAfterFromTail v c xs) = insert v (set xs)"
  by (induction xs) auto

lemma set_putAfter [simp]: "set (putAfter v c xs) = insert v (set xs)"
  by (simp add: putAfter_def)

lemma insertTask_frame:
  "options (insertTask now i s) = options s"
  "usedCapacity (insertTask now i s) = usedCapacity s"
  "usedConcurrent (insertTask now i s) = usedConcurrent s"
  "releaseTimers (insertTask now i s) = releaseTimers s"
  "nextTaskId (insertTask now i s) = nextTaskId s"
  "capacity (tasks (insertTask now i s) j) = capacity (tasks s j)"
  "reservedCapacity (tasks (insertTask now i s) j) = reservedCapacity (tasks s j)"
  "reservedConcurrent (tasks (insertTask now i s) j) = reservedConcurrent (tasks s j)"
  "unfinished (insertTask now i s) = unfinished s"
  "retryTimers (insertTask now i s) = retryTimers s"
  "awaitingHook (insertTask now i s) = awaitingHook s"
  "set (queue (insertTask now i s)) = insert i (set (queue s))"
  "set (tasksByTimeLimit (insertTask now i s)) \<subseteq> insert i (set (tasksByTimeLimit s))"
  by (auto simp: insertTask_def armQueueWaitingTimer_def insertByTimeLimit_def
      assignTimeLimit_def insertIntoQueue_def)

lemma good_insertTask:
  assumes "good s" "i < nextTaskId s" "0 \<le> capacity (tasks s i)"
  shows "good (insertTask now i s)"
proof (rule goodI[OF assms(1)])
  show "\<And>j r. reservedCapacity (tasks (insertTask now i s) j) = Some r \<Longrightarrow> 0 \<le> r"
    using good_resD(1)[OF assms(1)] by (simp add: insertTask_frame)
  show "\<And>j r. reservedConcurrent (tasks (insertTask now i s) j) = Some r \<Longrightarrow> 0 \<le> r"
    using good_resD(2)[OF assms(1)] by (simp add: insertTask_frame)
  show "\<And>j. j \<in> known (insertTask now i s) \<Longrightarrow>
      0 \<le> capacity (tasks (insertTask now i s) j) \<and> j < nextTaskId (insertTask now i s)"
    using good_knownD[OF assms(1)] assms(2,3) insertTask_frame(13)[of now i s]
    by (auto simp: known_def insertTask_frame(1-12))
qed (simp_all add: insertTask_frame)

lemma good_clampCapacity: "good s \<Longrightarrow> good (clampCapacity i s)"
proof (cases "exceedsMaxCapacity s i")
  case False
  assume "good s" then show ?thesis using False by (simp add: clampCapacity_def)
next
  case True
  assume g: "good s"
  obtain m where m: "maxCapacity (options s) = Some m" using True
    by (auto simp: exceedsMaxCapacity_def split: option.splits)
  have eq: "clampCapacity i s = updTask i (\<lambda>t. t\<lparr>capacity := m\<rparr>) s"
    using True m by (simp add: clampCapacity_def)
  show ?thesis unfolding eq
  proof (rule goodI[OF g])
    show "\<And>j r. reservedCapacity (tasks (updTask i (\<lambda>t. t\<lparr>capacity := m\<rparr>) s) j) = Some r
        \<Longrightarrow> 0 \<le> r"
      using good_resD(1)[OF g] by (simp split: if_splits)
    show "\<And>j r. reservedConcurrent (tasks (updTask i (\<lambda>t. t\<lparr>capacity := m\<rparr>) s) j) = Some r
        \<Longrightarrow> 0 \<le> r"
      using good_resD(2)[OF g] by (simp split: if_splits)
    show "\<And>j. j \<in> known (updTask i (\<lambda>t. t\<lparr>capacity := m\<rparr>) s) \<Longrightarrow>
        0 \<le> capacity (tasks (updTask i (\<lambda>t. t\<lparr>capacity := m\<rparr>) s) j)
        \<and> j < nextTaskId (updTask i (\<lambda>t. t\<lparr>capacity := m\<rparr>) s)"
      using good_knownD[OF g] good_capD(2)[OF g m] by (auto simp: known_def)
  qed simp_all
qed

lemma clampCapacity_nextTaskId [simp]: "nextTaskId (clampCapacity i s) = nextTaskId s"
  by (simp add: clampCapacity_def)

lemma good_admitTask:
  assumes g: "good s" and i: "i < nextTaskId s" and run: "admitTask now i s = Some (err, s')"
  shows "good s'"
proof (cases "capacity (tasks s i) < 0 \<or> priority (tasks s i) < 0 \<or> priority (tasks s i) > maxPriority")
  case True
  then have "s' = s" using run by (auto simp: admitTask_def split: if_splits)
  then show ?thesis using g by simp
next
  case False
  obtain b s2 where qo: "queueOverflow i s = (b, s2)" by (cases "queueOverflow i s") auto
  note q = good_queueOverflow[OF g qo]
  show ?thesis
  proof (cases b)
    case False
    then have "s' = s2" using run \<open>\<not> (capacity (tasks s i) < 0 \<or> priority (tasks s i) < 0
        \<or> priority (tasks s i) > maxPriority)\<close> qo
      by (auto simp: admitTask_def)
    then show ?thesis using q(1) by simp
  next
    case True
    have c2: "0 \<le> capacity (tasks s2 i)" "i < nextTaskId s2"
      using \<open>\<not> (capacity (tasks s i) < 0 \<or> priority (tasks s i) < 0
        \<or> priority (tasks s i) > maxPriority)\<close> q(2,3) i by auto
    have lp: "startNextTaskIfPossible now (enableTimers now (insertTask now i s2)) = Some s'"
      using run \<open>\<not> (capacity (tasks s i) < 0 \<or> priority (tasks s i) < 0
        \<or> priority (tasks s i) > maxPriority)\<close> qo True c2(1)
      by (auto simp: admitTask_def bind_eq_Some_conv)
    have "good (enableTimers now (insertTask now i s2))"
      using good_enableTimers[OF good_insertTask[OF q(1) c2(2) c2(1)]] .
    then show ?thesis using good_startNextTaskIfPossible[OF lp] by simp
  qed
qed

lemma good_scheduleTask:
  assumes g: "good s" and i: "i < nextTaskId s" and run: "scheduleTask now i s = Some (err, s')"
  shows "good s'"
proof (cases "stopped s \<noteq> None")
  case True
  then have "s' = reject i (limiterError Stopped) s" using run by (auto simp: scheduleTask_def)
  then show ?thesis using g by (simp add: good_reject)
next
  case False
  note ns = this
  show ?thesis
  proof (cases "exceedsMaxCapacity s i \<and> theExceedsStrategy (options s) = ThrowError")
    case True
    then have "s' = s" using run ns by (auto simp: scheduleTask_def)
    then show ?thesis using g by simp
  next
    case False
    then have "admitTask now i (clampCapacity i s) = Some (err, s')"
      using run ns by (auto simp: scheduleTask_def)
    then show ?thesis using good_admitTask[OF good_clampCapacity[OF g]] i by simp
  qed
qed

lemma good_schedule:
  assumes g: "good s" and run: "schedule now cb p s = Some (err, s')"
  shows "good s'"
proof -
  let ?s0 = "s\<lparr>tasks := (tasks s)(nextTaskId s := newTask now cb p),
      nextTaskId := Suc (nextTaskId s)\<rparr>"
  have g0: "good ?s0"
  proof (rule goodI[OF g])
    show "\<And>j r. reservedCapacity (tasks ?s0 j) = Some r \<Longrightarrow> 0 \<le> r"
      using good_resD(1)[OF g] by (simp add: newTask_def split: if_splits)
    show "\<And>j r. reservedConcurrent (tasks ?s0 j) = Some r \<Longrightarrow> 0 \<le> r"
      using good_resD(2)[OF g] by (simp add: newTask_def split: if_splits)
    show "\<And>j. j \<in> known ?s0 \<Longrightarrow> 0 \<le> capacity (tasks ?s0 j) \<and> j < nextTaskId ?s0"
    proof -
      fix j assume "j \<in> known ?s0"
      then have k: "j \<in> known s" by (simp add: known_def)
      then have "j < nextTaskId s" "0 \<le> capacity (tasks s j)" using good_knownD[OF g] by simp_all
      then show "0 \<le> capacity (tasks ?s0 j) \<and> j < nextTaskId ?s0" by simp
    qed
  qed simp_all
  have st: "scheduleTask now (nextTaskId s) ?s0 = Some (err, s')"
    using run by (simp add: schedule_def)
  have "nextTaskId s < nextTaskId ?s0" by simp
  then show ?thesis using good_scheduleTask[OF g0 _ st] by blast
qed

lemma good_stopTasks: "good s \<Longrightarrow> good (stopTasks p s)"
proof -
  assume g: "good s"
  have w: "good (stopWaiting q s)" if "good s" for q s
  proof (cases "stopWaitingTasks q")
    case True
    have "good ((rejectEach (limiterError Stopped) (queue s) s)
        \<lparr>queue := [], tasksByTimeAdded := [], tasksByTimeLimit := []\<rparr>)"
      by (rule good_frame[OF good_rejectEach[OF that]]) (auto simp: known_def)
    then show ?thesis using True by (simp add: stopWaiting_def)
  next
    case False
    then show ?thesis using that by (simp add: stopWaiting_def)
  qed
  have x: "good (stopExecuting q s)" if "good s" for q s
  proof (cases "rejectExecutingTasks q")
    case True
    have "good ((rejectEach (limiterError Stopped) (executingTasks s) s)\<lparr>executingTasks := []\<rparr>)"
      by (rule good_frame[OF good_rejectEach[OF that]]) (auto simp: known_def)
    then show ?thesis using True by (simp add: stopExecuting_def)
  next
    case False
    then show ?thesis using that by (simp add: stopExecuting_def)
  qed
  have r: "good (stopRetries q s)" if "good s" for q s
  proof (cases "stopTaskRetries q")
    case True
    have "good ((rejectEach (limiterError Stopped) (map fst (retryTimers s)) s)\<lparr>retryTimers := []\<rparr>)"
      by (rule good_frame[OF good_rejectEach[OF that]]) (auto simp: known_def)
    then show ?thesis using True by (simp add: stopRetries_def rejectAll_def)
  next
    case False
    then show ?thesis using that by (simp add: stopRetries_def)
  qed
  show ?thesis using g w x r by (simp add: stopTasks_def split: option.splits)
qed

lemma good_stop:
  assumes "good s" "stop now p s = Some (s', h)"
  shows "good s'"
proof -
  let ?s1 = "stopTasks (theStopParams p) s"
  have g1: "good ?s1" using good_stopTasks[OF assms(1)] .
  have ms: "markStopped now ?s1 = Some (s', h)" using assms(2) by (simp add: stop_def)
  show ?thesis
  proof (cases "length (queue ?s1) > 0")
    case True
    let ?s2 = "?s1\<lparr>stopped := Some \<lparr>stoppedPromise = Some (nextPromise ?s1)\<rparr>,
        nextPromise := Suc (nextPromise ?s1)\<rparr>"
    have lp: "startNextTaskIfPossible now ?s2 = Some s'"
      using ms True by (auto simp: markStopped_def bind_eq_Some_conv)
    have "good ?s2" by (rule good_frame[OF g1]) (simp_all add: known_def)
    then show ?thesis using good_startNextTaskIfPossible[OF lp] by simp
  next
    case False
    then have "s' = ?s1\<lparr>stopped := Some \<lparr>stoppedPromise = None\<rparr>\<rparr>"
      using ms by (auto simp: markStopped_def)
    moreover have "good (?s1\<lparr>stopped := Some \<lparr>stoppedPromise = None\<rparr>\<rparr>)"
      by (rule good_frame[OF g1]) (simp_all add: known_def)
    ultimately show ?thesis by simp
  qed
qed

lemma good_callbackResolves:
  assumes "good s" "callbackResolves now i s = Some s'"
  shows "good s'"
proof (cases "i \<in> set (unfinished s)")
  case False
  then show ?thesis using assms by (simp add: callbackResolves_def)
next
  case True
  let ?s1 = "settle i Resolved (releaseTaskResources i (finishExecution i s))"
  have lp: "startNextTaskIfPossible now ?s1 = Some s'"
    using assms(2) True by (simp add: callbackResolves_def resolveTask_def)
  have "good ?s1"
    by (intro good_settle good_releaseTaskResources good_finishExecution assms(1))
  then show ?thesis using good_startNextTaskIfPossible[OF lp] by simp
qed

lemma good_tryRejectTask:
  assumes "good s" "i \<in> known s" "tryRejectTask now i e rnd (finishExecution i s) = Some s'"
  shows "good s'"
proof -
  let ?s1 = "rejectTask now i e rnd (finishExecution i s)"
  have lp: "startNextTaskIfPossible now ?s1 = Some s'" using assms(3) by (simp add: tryRejectTask_def)
  have "good ?s1"
    by (rule good_rejectTask[OF good_finishExecution[OF assms(1)]])
       (use good_knownD[OF assms(1,2)] in simp_all)
  then show ?thesis using good_startNextTaskIfPossible[OF lp] by simp
qed

lemma good_callbackRejects:
  assumes "good s" "callbackRejects now i e rnd s = Some s'"
  shows "good s'"
proof (cases "i \<in> set (unfinished s)")
  case False
  then show ?thesis using assms by (simp add: callbackRejects_def)
next
  case True
  then have k: "i \<in> known s" by (simp add: known_def)
  show ?thesis using good_tryRejectTask[OF assms(1) k] assms(2) True
    by (simp add: callbackRejects_def)
qed

lemma good_executionTimerFires:
  assumes "good s" "executionTimerFires now i rnd s = Some s'"
  shows "good s'"
proof (cases "executionTimerId (tasks s i) \<noteq> None \<and> i \<in> set (unfinished s)")
  case False
  then show ?thesis using assms by (auto simp: executionTimerFires_def)
next
  case True
  then have k: "i \<in> known s" by (simp add: known_def)
  show ?thesis using good_tryRejectTask[OF assms(1) k] assms(2) True
    by (auto simp: executionTimerFires_def)
qed

lemma good_queueWaitingTimerFires: "good s \<Longrightarrow> good (queueWaitingTimerFires i s)"
  by (simp add: queueWaitingTimerFires_def good_reject good_removeTaskFromQueues)

lemma good_retryTimerFires:
  assumes "good s" "retryTimerFires now i s = Some (err, s')"
  shows "good s'"
proof (cases "map_of (retryTimers s) i")
  case None
  then show ?thesis using assms by (simp add: retryTimerFires_def)
next
  case (Some due)
  then have "i \<in> fst ` set (retryTimers s)" by (meson domI domIff map_of_eq_None_iff)
  then have k: "i \<in> known s" by (simp add: known_def)
  let ?s1 = "s\<lparr>retryTimers := remove1 (i, due) (retryTimers s)\<rparr>"
  have g1: "good ?s1"
  proof (rule good_frame[OF assms(1)])
    show "known ?s1 \<subseteq> known s"
      using set_remove1_subset[of "(i, due)" "retryTimers s"] by (auto simp: known_def)
  qed simp_all
  have st: "scheduleTask now i ?s1 = Some (err, s')"
    using assms(2) Some by (simp add: retryTimerFires_def)
  have "i < nextTaskId ?s1" using good_knownD(2)[OF assms(1) k] by simp
  then show ?thesis using good_scheduleTask[OF g1 _ st] by blast
qed

lemma good_hookSettles: "good s \<Longrightarrow> good (hookSettles now i out s)"
proof (cases "map_of (awaitingHook s) i")
  case None
  assume "good s" then show ?thesis using None by (simp add: hookSettles_def)
next
  case (Some e)
  assume g: "good s"
  have "i \<in> fst ` set (awaitingHook s)" using Some by (meson domI domIff map_of_eq_None_iff)
  then have k: "i \<in> known s" by (simp add: known_def)
  let ?s1 = "s\<lparr>awaitingHook := remove1 (i, e) (awaitingHook s)\<rparr>"
  have g1: "good ?s1"
  proof (rule good_frame[OF g])
    show "known ?s1 \<subseteq> known s"
      using set_remove1_subset[of "(i, e)" "awaitingHook s"] by (auto simp: known_def)
  qed simp_all
  have i1: "i < nextTaskId ?s1" "0 \<le> capacity (tasks ?s1 i)" using good_knownD[OF g k] by simp_all
  show ?thesis using Some good_reject[OF g1] good_setRetryTimer[OF g1 i1]
    by (simp add: hookSettles_def split: hook_outcome.splits on_failure_result.splits)
qed

lemma setRules_subset: "fst ` set (setRules now en rules timers) \<subseteq> set rules"
  by (auto simp: setRules_def)

lemma rulesSafe_mono: "rulesSafe m xs \<Longrightarrow> set ys \<subseteq> set xs \<Longrightarrow> rulesSafe m ys"
  by (auto simp: rulesSafe_def list_all_iff)

lemma rulesSafe_setRules:
  assumes "optionsSafe opts" "maxCapacity opts = Some m"
  shows "rulesSafe m (map fst (setRules now en
      (case releaseRules opts of None \<Rightarrow> [] | Some rs \<Rightarrow> rs) timers))"
proof -
  define rules where "rules = (case releaseRules opts of None \<Rightarrow> [] | Some rs \<Rightarrow> rs)"
  have "rulesSafe m rules" using assms by (simp add: optionsSafe_def rules_def)
  moreover have "set (map fst (setRules now en rules timers)) \<subseteq> set rules"
    using setRules_subset[of now en rules timers] by simp
  ultimately have "rulesSafe m (map fst (setRules now en rules timers))"
    by (rule rulesSafe_mono)
  then show ?thesis unfolding rules_def .
qed

lemma good_setOptions:
  assumes g: "good s" and al: "allowed (SetOptions now opts) s"
    and run: "setOptions now opts s = Inr s'"
  shows "good s'"
proof -
  let ?ts = "setRules now (releaseRuleTimersEnabled s)
      (case releaseRules opts of None \<Rightarrow> [] | Some rs \<Rightarrow> rs) (releaseTimers s)"
  have s': "s' = s\<lparr>options := opts, releaseTimers := ?ts\<rparr>"
    and chk: "checkMaxCapacity (maxCapacity opts) = None"
    using run by (auto simp: setOptions_def split: option.splits)
  have safe: "optionsSafe opts" using al by (simp add: allowed_def)
  have "capOk s'"
  proof (cases "maxCapacity opts")
    case None
    then show ?thesis by (simp add: capOk_def s')
  next
    case (Some m)
    have "usedCapacity s \<le> m" using al Some by (simp add: allowed_def)
    moreover have "0 \<le> m" using chk Some by (simp add: checkMaxCapacity_def split: if_splits)
    ultimately show ?thesis using rulesSafe_setRules[OF safe Some] Some
      by (simp add: capOk_def s')
  qed
  moreover have "concOk s'" using al safe
    by (auto simp: concOk_def s' allowed_def optionsSafe_def split: option.splits)
  moreover have "resOk s'" using g by (simp add: good_def resOk_def s')
  moreover have "pendOk s'" using g by (simp add: good_def pendOk_def known_def s')
  moreover have "idsOk s'" using g by (simp add: good_def idsOk_def known_def s')
  ultimately show ?thesis by (simp add: good_def)
qed

lemma good_constructor:
  assumes safe: "optionsSafe opts" and run: "constructor t0 opts = Inr s0"
  shows "good s0"
proof -
  let ?ts = "setRules t0 False (case releaseRules opts of None \<Rightarrow> [] | Some rs \<Rightarrow> rs) []"
  have f: "options s0 = opts" "usedConcurrent s0 = 0" "releaseTimers s0 = ?ts"
    "usedCapacity s0 = (case initiallyUsedCapacity opts of None \<Rightarrow> 0 | Some u \<Rightarrow> u)"
    "tasks s0 = (\<lambda>_. emptyTask)" "known s0 = {}"
    and chk: "checkMaxCapacity (maxCapacity opts) = None"
      "checkUsedCapacity (initiallyUsedCapacity opts) (maxCapacity opts) = None"
    using run by (auto simp: constructor_def known_def split: option.splits)
  have "capOk s0"
  proof (cases "maxCapacity opts")
    case None
    then show ?thesis by (simp add: capOk_def f)
  next
    case (Some m)
    have m0: "0 \<le> m" using chk(1) Some by (simp add: checkMaxCapacity_def split: if_splits)
    have "usedCapacity s0 \<le> m" using chk(2) Some m0
      by (auto simp: f checkUsedCapacity_def split: option.splits if_splits)
    then show ?thesis using rulesSafe_setRules[OF safe Some] Some m0
      by (simp add: capOk_def f)
  qed
  moreover have "concOk s0" using safe
    by (auto simp: concOk_def f optionsSafe_def split: option.splits)
  moreover have "resOk s0" by (simp add: resOk_def f emptyTask_def)
  moreover have "pendOk s0" by (simp add: pendOk_def f)
  moreover have "idsOk s0" by (simp add: idsOk_def f)
  ultimately show ?thesis by (simp add: good_def)
qed

lemma good_step:
  assumes g: "good s" and al: "allowed e s" and st: "step e s = Some s'"
  shows "good s'"
proof (cases e)
  case (Schedule now cb p)
  then show ?thesis using st good_schedule[OF g] by auto
next
  case (CallbackResolves now i)
  then show ?thesis using st good_callbackResolves[OF g] by auto
next
  case (CallbackRejects now i err rnd)
  then show ?thesis using st good_callbackRejects[OF g] by auto
next
  case (ExecutionTimerFires now i rnd)
  then show ?thesis using st good_executionTimerFires[OF g] by auto
next
  case (QueueWaitingTimerFires i)
  then show ?thesis using st good_queueWaitingTimerFires[OF g] by auto
next
  case (RetryTimerFires now i)
  then show ?thesis using st good_retryTimerFires[OF g] by auto
next
  case (HookSettles now i out)
  then show ?thesis using st good_hookSettles[OF g] by auto
next
  case (RuleIntervalFires now r)
  then show ?thesis using st good_ruleIntervalFires[OF g] by auto
next
  case (RuleTimeoutFires now r)
  then show ?thesis using st good_ruleTimeoutFires[OF g] by auto
next
  case (GetUsedCapacity now)
  then show ?thesis using st good_getUsedCapacity[OF g] by auto
next
  case (SetUsedCapacity now used)
  then show ?thesis using st good_setUsedCapacity[OF g] by auto
next
  case (AdjustUsedCapacity now diff)
  then show ?thesis using st good_adjustUsedCapacity[OF g] by auto
next
  case (SetOptions now opts)
  show ?thesis
  proof (cases "setOptions now opts s")
    case (Inl err)
    then show ?thesis using st SetOptions g by simp
  next
    case (Inr s2)
    then show ?thesis using st SetOptions good_setOptions[OF g _ Inr] al by simp
  qed
next
  case (Stop now p)
  then show ?thesis using st good_stop[OF g] by auto
qed

lemma good_run:
  assumes "good s" "allowedRun events s" "run events s = Some s'"
  shows "good s'"
  using assms
proof (induction events arbitrary: s)
  case Nil
  then show ?case by simp
next
  case (Cons e es)
  obtain s1 where s1: "step e s = Some s1" and r: "run es s1 = Some s'"
    using Cons.prems(3) by (auto simp: bind_eq_Some_conv)
  have "good s1" using good_step[OF Cons.prems(1) _ s1] Cons.prems(2) by simp
  moreover have "allowedRun es s1" using Cons.prems(2) s1 by simp
  ultimately show ?case using Cons.IH r by blast
qed

text \<open>
  C3 as the specification words it fails under a reconfiguration. The limiter accepts a
  \<open>maxCapacity\<close> below the capacity in use and leaves \<open>usedCapacity\<close> above it: with
  \<open>maxCapacity: 10\<close>, a task of capacity 8 is dispatched, and \<open>setOptions({maxCapacity: 5})\<close>
  leaves 8 in use under a maximum of 5.
\<close>

theorem reconfiguration_below_usage_breaks_bound_counterexample:
  "map_option usage
     (limiterAfter 0 (noOptions\<lparr>maxCapacity := Some 10\<rparr>)
        [Schedule 0 ReturnsPromise (noParams\<lparr>param_capacity := Some 8\<rparr>),
         SetOptions 1 (noOptions\<lparr>maxCapacity := Some 5\<rparr>)])
     = Some ((8, Some 5), (1, None))
   \<and> map_option bounds
     (limiterAfter 0 (noOptions\<lparr>maxCapacity := Some 10\<rparr>)
        [Schedule 0 ReturnsPromise (noParams\<lparr>param_capacity := Some 8\<rparr>),
         SetOptions 1 (noOptions\<lparr>maxCapacity := Some 5\<rparr>)])
     = Some False"
  by code_simp

text \<open>
  Each condition on the options is needed. \<open>maxConcurrent: 0\<close> is read as no limit by the
  scheduler loop; the reset value of a rule is not compared with \<open>maxCapacity\<close>; in the
  catch-up, a reduce rule whose catch-up time is before that of a reset rule is applied a
  negative number of times, which raises \<open>usedCapacity\<close> from the reset value; and so does a
  reduce value below 0.
\<close>

lemma maxConcurrent_zero_sets_no_limit:
  "map_option usage
     (limiterAfter 0 (noOptions\<lparr>maxConcurrent := Some 0\<rparr>) [Schedule 0 ReturnsPromise noParams])
     = Some ((0, None), (1, Some 0))"
  by code_simp

lemma reset_value_above_maxCapacity_is_applied:
  "map_option usage
     (limiterAfter 0
        (noOptions\<lparr>maxCapacity := Some 10, releaseRules := Some [Reset 0 (Some 20) 100]\<rparr>)
        [Schedule 0 ReturnsPromise (noParams\<lparr>param_capacity := Some 8\<rparr>),
         Schedule 1 ReturnsPromise (noParams\<lparr>param_capacity := Some 8\<rparr>),
         RuleTimeoutFires 100 (Reset 0 (Some 20) 100)])
     = Some ((20, Some 10), (1, None))"
  by code_simp

lemma catch_up_after_reset_raises_usedCapacity:
  "map_option usage
     (limiterAfter 0
        (noOptions\<lparr>maxCapacity := Some 10, initiallyUsedCapacity := Some 10,
           releaseRules := Some [Reset 0 (Some 5) 100, Reduce 1 8 300]\<rparr>)
        [GetUsedCapacity 1000])
     = Some ((13, Some 10), (0, None))"
  by code_simp

lemma negative_reduce_value_raises_usedCapacity:
  "map_option usage
     (limiterAfter 0
        (noOptions\<lparr>maxCapacity := Some 10, initiallyUsedCapacity := Some 10,
           releaseRules := Some [Reduce 1 (- 3) 300]\<rparr>)
        [GetUsedCapacity 1000])
     = Some ((19, Some 10), (0, None))"
  by code_simp

text \<open>
  C3, as the code has it. Let a limiter be constructed with safe options: \<open>maxConcurrent\<close>, when defined,
  is at least 1, and the release rules have positive intervals, reduce values not below 0,
  reset values between 0 and \<open>maxCapacity\<close>, and no reset value other than 0 beside a reduce
  rule. Then after every sequence of admissions, dispatches, completions, failures,
  timeouts, retries, firings and catch-ups of release rules, manual capacity mutations,
  stops, and reconfigurations to safe options whose \<open>maxCapacity\<close> and \<open>maxConcurrent\<close> are
  not below the capacity and the concurrency in use, \<open>usedCapacity \<le> maxCapacity\<close> holds when
  \<open>maxCapacity\<close> is defined and \<open>usedConcurrent \<le> maxConcurrent\<close> holds when \<open>maxConcurrent\<close>
  is defined.
\<close>

theorem bounds_hold_along_runs:
  assumes "optionsSafe opts" and "allowedFrom t0 opts events"
    and "limiterAfter t0 opts events = Some s"
  shows "bounds s"
proof -
  obtain s0 where c: "constructor t0 opts = Inr s0" and r: "run events s0 = Some s"
    using assms(3) by (auto simp: limiterAfter_def split: sum.splits)
  have "allowedRun events s0" using assms(2) c by (simp add: allowedFrom_def)
  then have "good s" using good_run[OF good_constructor[OF assms(1) c] _ r] by simp
  then show ?thesis by (rule good_bounds)
qed

theorem bounds_hold_along_runs_witness:
  "optionsSafe exampleOptions \<and> allowedFrom 0 exampleOptions exampleEvents
   \<and> limiterAfter 0 exampleOptions exampleEvents = Some exampleEnd
   \<and> bounds exampleEnd"
proof -
  have h1: "optionsSafe exampleOptions" by code_simp
  have h2: "allowedFrom 0 exampleOptions exampleEvents" by code_simp
  have "\<not> Option.is_none (limiterAfter 0 exampleOptions exampleEvents)" by code_simp
  then have h3: "limiterAfter 0 exampleOptions exampleEvents = Some exampleEnd"
    by (simp add: exampleEnd_def Option.is_none_def)
  show ?thesis using bounds_hold_along_runs[OF h1 h2 h3] h1 h2 h3 by simp
qed

end
